theory Spec2Isabelle
  imports
    Complex_Main
    "HOL-Library.Char_ord"
    "HOL-Library.List_Lexorder"
    "HOL-Library.Product_Lexorder"
    "HOL-Library.AList"
    "HOL-Library.Sublist"
    "HOL-Library.Multiset"
    "HOL-Library.Log_Nat"
begin

section \<open>Strings as Python sees them\<close>

text \<open>
  Names are Python \<open>str\<close> values. The model uses \<open>string\<close> (a list of 8-bit
  characters read as the code points 0..255). \<open>isspace\<close> is \<open>str.isspace\<close> on
  that range, which is also what \<open>str.strip()\<close>, \<open>str.split()\<close> and the regex
  class \<open>\s\<close> use: TAB..CR, FS..US, SPACE, NEL (133) and NBSP (160).
\<close>

definition isspace :: "char \<Rightarrow> bool" where
  "isspace c = (let n = (of_char c :: nat) in
     (9 \<le> n \<and> n \<le> 13) \<or> (28 \<le> n \<and> n \<le> 32) \<or> n = 133 \<or> n = 160)"

text \<open>\<open>s.strip()\<close>\<close>

definition strip :: "string \<Rightarrow> string" where
  "strip s = rev (dropWhile isspace (rev (dropWhile isspace s)))"

text \<open>\<open>s.split()\<close>: the maximal runs of non-whitespace characters, in order.\<close>

fun split_ws :: "string \<Rightarrow> string list" where
  "split_ws [] = []"
| "split_ws (c # cs) =
     (if isspace c then split_ws cs
      else (case cs of
              [] \<Rightarrow> [[c]]
            | d # _ \<Rightarrow> if isspace d then [c] # split_ws cs
                       else (case split_ws cs of w # ws \<Rightarrow> (c # w) # ws | [] \<Rightarrow> [[c]])))"

text \<open>\<open>sep.join(ws)\<close>\<close>

fun join :: "string \<Rightarrow> string list \<Rightarrow> string" where
  "join sep [] = []"
| "join sep [w] = w"
| "join sep (w # v # ws) = w @ sep @ join sep (v # ws)"

text \<open>\<open>s.endswith(suf)\<close>, \<open>s.startswith(pre)\<close> and \<open>sub in s\<close>\<close>

definition endswith :: "string \<Rightarrow> string \<Rightarrow> bool" where
  "endswith s suf = (length suf \<le> length s \<and> drop (length s - length suf) s = suf)"

definition startswith :: "string \<Rightarrow> string \<Rightarrow> bool" where
  "startswith s pre = (take (length pre) s = pre)"

fun contains :: "string \<Rightarrow> string \<Rightarrow> bool" where
  "contains sub [] = (sub = [])"
| "contains sub (c # cs) = (startswith (c # cs) sub \<or> contains sub cs)"

section \<open>The name normalizer (resolve\_persons.py)\<close>

text \<open>
  The suffix list of \<open>normalize_name\<close>, in the order the loop visits it. Each suffix
  is tested once, against the string as the earlier suffixes left it:
  \<^verbatim>\<open>if s.endswith(suffix): s = s[:-len(suffix)].strip()\<close>
\<close>

definition NAME_SUFFIXES :: "string list" where
  "NAME_SUFFIXES =
     ['', Esq.'', '' Esq.'', '', Jr.'', '' Jr.'', '', Sr.'', '' Sr.'',
      '', III'', '' III'', '', II'', '' II'', '', IV'', '' IV'',
      '', M.D.'', '' M.D.'', '', Ph.D.'', '' Ph.D.'', '', J.D.'', '' J.D.'']"

definition strip_suffix :: "string \<Rightarrow> string \<Rightarrow> string" where
  "strip_suffix s sfx =
     (if endswith s sfx then strip (take (length s - length sfx) s) else s)"

definition strip_suffixes :: "string \<Rightarrow> string" where
  "strip_suffixes s = foldl strip_suffix s NAME_SUFFIXES"

text \<open>
  The rewrite of \<open>"LAST, FIRST MIDDLE"\<close>: \<open>s.split(",", 1)\<close> cuts at the first
  comma, so it always has two parts when the string holds a comma.
\<close>

definition reorder_comma :: "string \<Rightarrow> string" where
  "reorder_comma s =
     (if CHR '','' \<in> set s then
        (let last = strip (takeWhile (\<lambda>c. c \<noteq> CHR '','') s);
             first_middle = strip (tl (dropWhile (\<lambda>c. c \<noteq> CHR '','') s))
         in if first_middle \<noteq> [] \<and> last \<noteq> [] then first_middle @ '' '' @ last else s)
      else s)"

text \<open>
  \<^verbatim>\<open>re.sub(r'\s*\([^)]*\)\s*', ' ', s)\<close>. A match at a position takes the
  whitespace run there, an opening parenthesis, everything up to the first closing
  parenthesis, and the whitespace after it; \<open>match_paren\<close> returns what is left of the
  string behind the match. \<open>re.sub\<close> replaces the leftmost matches, one after the other.
\<close>

definition match_paren :: "string \<Rightarrow> string option" where
  "match_paren s =
     (case dropWhile isspace s of
        [] \<Rightarrow> None
      | c # u \<Rightarrow>
          if c = CHR ''('' \<and> CHR '')'' \<in> set u
          then Some (dropWhile isspace (tl (dropWhile (\<lambda>x. x \<noteq> CHR '')'') u)))
          else None)"

lemma length_dropWhile_tl_le: "length (dropWhile P (tl (dropWhile Q u))) \<le> length u"
proof -
  have "length (dropWhile P (tl (dropWhile Q u))) \<le> length (tl (dropWhile Q u))"
    by (rule length_dropWhile_le)
  also have "\<dots> \<le> length (dropWhile Q u)" by simp
  also have "\<dots> \<le> length u" by (rule length_dropWhile_le)
  finally show ?thesis .
qed

lemma match_paren_shorter:
  assumes "match_paren s = Some r"
  shows "length r < length s"
proof -
  obtain c u where cu: "dropWhile isspace s = c # u"
    using assms by (auto simp: match_paren_def split: list.splits)
  have r: "r = dropWhile isspace (tl (dropWhile (\<lambda>x. x \<noteq> CHR '')'') u))"
    using assms cu by (auto simp: match_paren_def split: if_splits)
  have "length r \<le> length u" unfolding r by (rule length_dropWhile_tl_le)
  moreover have "length (c # u) \<le> length s"
    using length_dropWhile_le [of isspace s] cu by simp
  ultimately show ?thesis by simp
qed

function sub_parens :: "string \<Rightarrow> string" where
  "sub_parens [] = []"
| "sub_parens (c # cs) =
     (case match_paren (c # cs) of
        Some rest \<Rightarrow> CHR '' '' # sub_parens rest
      | None \<Rightarrow> c # sub_parens cs)"
  by pat_completeness auto
termination
  by (relation "measure length") (auto dest: match_paren_shorter)

text \<open>\<open>' '.join(s.split())\<close>\<close>

definition collapse_ws :: "string \<Rightarrow> string" where
  "collapse_ws s = join '' '' (split_ws s)"

definition normalize_name :: "string \<Rightarrow> string" where
  "normalize_name name =
     (if name = [] then []
      else collapse_ws (sub_parens (reorder_comma (strip_suffixes (strip name)))))"

text \<open>
  \<open>get_short_name\<close>: the first and the last word of the normalized name when it has
  more than two words.
\<close>

definition get_short_name :: "string \<Rightarrow> string" where
  "get_short_name name =
     (let normalized = normalize_name name; parts = split_ws normalized
      in if length parts \<le> 2 then normalized else hd parts @ '' '' @ last parts)"

section \<open>Facts about the string primitives\<close>

lemma isspace_space [simp]: "isspace (CHR '' '')"
  by (simp add: isspace_def)

lemma not_isspace_punct [simp]:
  "\<not> isspace (CHR ''('')" "\<not> isspace (CHR '')'')" "\<not> isspace (CHR '','')"
  by (simp_all add: isspace_def)

definition word :: "string \<Rightarrow> bool" where
  "word w = (w \<noteq> [] \<and> (\<forall>c \<in> set w. \<not> isspace c))"

lemma split_ws_words: "\<forall>w \<in> set (split_ws s). word w"
proof (induction s rule: split_ws.induct)
  case 1
  show ?case by simp
next
  case (2 c cs)
  show ?case
  proof (cases "isspace c")
    case True
    with 2 show ?thesis by simp
  next
    case nsp: False
    show ?thesis
    proof (cases cs)
      case Nil
      with nsp show ?thesis by (simp add: word_def)
    next
      case (Cons d ds)
      show ?thesis
      proof (cases "isspace d")
        case True
        with 2 nsp Cons show ?thesis by (simp add: word_def)
      next
        case False
        with 2 nsp Cons show ?thesis
          by (cases "split_ws cs") (auto simp: word_def)
      qed
    qed
  qed
qed

lemma split_ws_word_Cons:
  "word w \<Longrightarrow> split_ws (w @ CHR '' '' # rest) = w # split_ws rest"
proof (induction w)
  case Nil
  then show ?case by (simp add: word_def)
next
  case (Cons c w)
  then have nsp: "\<not> isspace c" by (simp add: word_def)
  show ?case
  proof (cases w)
    case Nil
    with nsp show ?thesis by simp
  next
    case (Cons d ds)
    with Cons.prems have "word w" "\<not> isspace d" by (auto simp: word_def)
    with Cons.IH nsp Cons show ?thesis by simp
  qed
qed

lemma split_ws_word: "word w \<Longrightarrow> split_ws w = [w]"
proof (induction w)
  case Nil
  then show ?case by (simp add: word_def)
next
  case (Cons c w)
  then have nsp: "\<not> isspace c" by (simp add: word_def)
  show ?case
  proof (cases w)
    case Nil
    with nsp show ?thesis by simp
  next
    case (Cons d ds)
    with Cons.prems have "word w" "\<not> isspace d" by (auto simp: word_def)
    with Cons.IH nsp Cons show ?thesis by simp
  qed
qed

lemma split_ws_join: "\<forall>w \<in> set ws. word w \<Longrightarrow> split_ws (join '' '' ws) = ws"
proof (induction ws rule: induct_list012)
  case 1
  show ?case by simp
next
  case (2 w)
  then show ?case by (simp add: split_ws_word)
next
  case (3 w v ws)
  then have "word w" by simp
  then have "split_ws (w @ CHR '' '' # join '' '' (v # ws)) = w # split_ws (join '' '' (v # ws))"
    by (rule split_ws_word_Cons)
  with 3 show ?case by simp
qed

lemma collapse_ws_idem: "collapse_ws (collapse_ws s) = collapse_ws s"
  by (simp add: collapse_ws_def split_ws_join split_ws_words)

lemma strip_id:
  assumes "t = [] \<or> (\<not> isspace (hd t) \<and> \<not> isspace (last t))"
  shows "strip t = t"
proof (cases t)
  case Nil
  then show ?thesis by (simp add: strip_def)
next
  case (Cons c cs)
  with assms have h: "\<not> isspace (hd t)" and l: "\<not> isspace (last t)" by auto
  have 1: "dropWhile isspace t = t" using h Cons by simp
  from Cons have "t \<noteq> []" by simp
  then obtain ys y where ys: "t = ys @ [y]" by (metis rev_exhaust)
  have 2: "dropWhile isspace (rev t) = rev t" using l by (simp add: ys)
  show ?thesis by (simp add: strip_def 1 2)
qed

lemma join_words_ends:
  assumes "\<forall>w \<in> set ws. word w" "ws \<noteq> []"
  shows "join '' '' ws \<noteq> [] \<and> \<not> isspace (hd (join '' '' ws)) \<and> \<not> isspace (last (join '' '' ws))"
  using assms
proof (induction ws rule: induct_list012)
  case 1
  then show ?case by simp
next
  case (2 w)
  then show ?case by (cases w) (auto simp: word_def)
next
  case (3 w v ws)
  then have w: "word w" and rest: "join '' '' (v # ws) \<noteq> []"
    "\<not> isspace (last (join '' '' (v # ws)))" by auto
  from w show ?case using rest by (cases w) (auto simp: word_def)
qed

lemma strip_collapse_ws: "strip (collapse_ws s) = collapse_ws s"
proof (cases "split_ws s = []")
  case True
  then show ?thesis by (simp add: collapse_ws_def strip_def)
next
  case False
  then show ?thesis
    unfolding collapse_ws_def
    by (intro strip_id disjI2) (use join_words_ends [OF split_ws_words False] in auto)
qed

lemma foldl_strip_suffix_id:
  "\<forall>suf \<in> set L. \<not> endswith r suf \<Longrightarrow> foldl strip_suffix r L = r"
  by (induction L) (auto simp: strip_suffix_def)

lemma reorder_comma_id: "CHR '','' \<notin> set r \<Longrightarrow> reorder_comma r = r"
  by (simp add: reorder_comma_def)

text \<open>
  \<open>no_group s\<close>: no opening parenthesis of \<open>s\<close> has a closing one behind it, so the
  parenthetical pattern matches nowhere in \<open>s\<close>.
\<close>

fun no_group :: "string \<Rightarrow> bool" where
  "no_group [] = True"
| "no_group (c # cs) = ((c = CHR ''('' \<longrightarrow> CHR '')'' \<notin> set cs) \<and> no_group cs)"

lemma set_tl_subset: "set (tl xs) \<subseteq> set xs"
  by (cases xs) auto

lemma set_dropWhile_subset: "set (dropWhile P xs) \<subseteq> set xs"
  by (meson set_dropWhileD subsetI)

lemma set_match_paren:
  assumes "match_paren s = Some rest"
  shows "set rest \<subseteq> set s"
proof -
  obtain d u where du: "dropWhile isspace s = d # u"
    using assms by (auto simp: match_paren_def split: list.splits)
  have rest: "rest = dropWhile isspace (tl (dropWhile (\<lambda>x. x \<noteq> CHR '')'') u))"
    using assms du by (auto simp: match_paren_def split: if_splits)
  have "set rest \<subseteq> set (tl (dropWhile (\<lambda>x. x \<noteq> CHR '')'') u))"
    unfolding rest by (rule set_dropWhile_subset)
  also have "\<dots> \<subseteq> set (dropWhile (\<lambda>x. x \<noteq> CHR '')'') u)"
    by (rule set_tl_subset)
  also have "\<dots> \<subseteq> set u" by (rule set_dropWhile_subset)
  also have "\<dots> \<subseteq> set (d # u)" by auto
  also have "\<dots> \<subseteq> set s" unfolding du [symmetric] by (rule set_dropWhile_subset)
  finally show ?thesis .
qed

lemma set_sub_parens: "set (sub_parens s) \<subseteq> insert (CHR '' '') (set s)"
proof (induction s rule: sub_parens.induct)
  case 1
  show ?case by simp
next
  case (2 c cs)
  show ?case
  proof (cases "match_paren (c # cs)")
    case None
    have eq: "sub_parens (c # cs) = c # sub_parens cs" using None by simp
    have "set (sub_parens cs) \<subseteq> insert (CHR '' '') (set cs)" using None by (rule 2)
    then show ?thesis unfolding eq by auto
  next
    case (Some rest)
    have eq: "sub_parens (c # cs) = CHR '' '' # sub_parens rest" using Some by simp
    have "set (sub_parens rest) \<subseteq> insert (CHR '' '') (set rest)" using Some by (rule 2)
    moreover have "set rest \<subseteq> set (c # cs)" using Some by (rule set_match_paren)
    ultimately show ?thesis unfolding eq by auto
  qed
qed

lemma no_group_sub_parens: "no_group (sub_parens s)"
proof (induction s rule: sub_parens.induct)
  case 1
  show ?case by simp
next
  case (2 c cs)
  show ?case
  proof (cases "match_paren (c # cs)")
    case (Some rest)
    have eq: "sub_parens (c # cs) = CHR '' '' # sub_parens rest" using Some by simp
    have "no_group (sub_parens rest)" using Some by (rule 2)
    then show ?thesis unfolding eq by simp
  next
    case None
    have eq: "sub_parens (c # cs) = c # sub_parens cs" using None by simp
    have ih: "no_group (sub_parens cs)" using None by (rule 2)
    have "CHR '')'' \<notin> set (sub_parens cs)" if "c = CHR ''(''"
    proof -
      from None that have "CHR '')'' \<notin> set cs"
        by (auto simp: match_paren_def split: if_splits)
      with set_sub_parens [of cs] show ?thesis by auto
    qed
    with ih show ?thesis unfolding eq by simp
  qed
qed

lemma no_group_filter: "no_group (filter (\<lambda>c. \<not> isspace c) s) = no_group s"
  by (induction s) auto

lemma concat_split_ws: "concat (split_ws s) = filter (\<lambda>c. \<not> isspace c) s"
proof (induction s rule: split_ws.induct)
  case 1
  show ?case by simp
next
  case (2 c cs)
  show ?case
  proof (cases "isspace c")
    case True
    with 2 show ?thesis by simp
  next
    case nsp: False
    show ?thesis
    proof (cases cs)
      case Nil
      with nsp show ?thesis by simp
    next
      case (Cons d ds)
      show ?thesis
      proof (cases "isspace d")
        case True
        with 2 nsp Cons show ?thesis by simp
      next
        case False
        with 2 nsp Cons show ?thesis
          by (cases "split_ws cs") auto
      qed
    qed
  qed
qed

lemma filter_join_words:
  "\<forall>w \<in> set ws. word w \<Longrightarrow> filter (\<lambda>c. \<not> isspace c) (join '' '' ws) = concat ws"
  by (induction ws rule: induct_list012) (auto simp: word_def)

lemma no_group_collapse_ws: "no_group (collapse_ws s) = no_group s"
proof -
  have "filter (\<lambda>c. \<not> isspace c) (collapse_ws s) = filter (\<lambda>c. \<not> isspace c) s"
    by (simp add: collapse_ws_def filter_join_words split_ws_words concat_split_ws)
  then show ?thesis by (metis no_group_filter)
qed

lemma no_group_dropWhile: "no_group s \<Longrightarrow> no_group (dropWhile P s)"
  by (induction s) auto

lemma no_group_match_paren: "no_group s \<Longrightarrow> match_paren s = None"
proof -
  assume "no_group s"
  then have "no_group (dropWhile isspace s)" by (rule no_group_dropWhile)
  then show ?thesis
  proof (cases "dropWhile isspace s")
    case Nil
    show ?thesis unfolding match_paren_def Nil by simp
  next
    case (Cons c u)
    with \<open>no_group (dropWhile isspace s)\<close> have "c = CHR ''('' \<longrightarrow> CHR '')'' \<notin> set u"
      by simp
    then show ?thesis unfolding match_paren_def Cons by auto
  qed
qed

lemma sub_parens_id: "no_group s \<Longrightarrow> sub_parens s = s"
proof (induction s)
  case Nil
  show ?case by simp
next
  case (Cons c cs)
  then have "match_paren (c # cs) = None" by (intro no_group_match_paren)
  with Cons show ?case by simp
qed

lemma normalize_name_no_group: "no_group (normalize_name x)"
  by (simp add: normalize_name_def no_group_collapse_ws no_group_sub_parens)

lemma normalize_name_collapsed: "\<exists>t. normalize_name x = collapse_ws t"
  by (auto simp: normalize_name_def collapse_ws_def intro: exI [of _ "[]"])

section \<open>Claim C3: idempotence of the normalizer\<close>

text \<open>
  C3 states that \<open>normalize_name (normalize_name x) = normalize_name x\<close> for every
  input. The suffix list is walked once, in its fixed order, and the comma rewrite is
  applied once, so a first pass can expose a suffix or a comma that only a second pass
  handles: \<open>"John Smith Esq. Jr."\<close> loses \<open>" Jr."\<close> (the test for \<open>" Esq."\<close> came
  earlier in the list and failed), giving \<open>"John Smith Esq."\<close>; the second pass then
  strips \<open>" Esq."\<close>.
\<close>

theorem normalize_name_not_idempotent:
  "normalize_name (normalize_name ''John Smith Esq. Jr.'') \<noteq> normalize_name ''John Smith Esq. Jr.''"
proof -
  have 1: "normalize_name ''John Smith Esq. Jr.'' = ''John Smith Esq.''" by code_simp
  have 2: "normalize_name ''John Smith Esq.'' = ''John Smith''" by code_simp
  show ?thesis unfolding 1 2 by simp
qed

text \<open>
  C3 as amended: the normalizer is idempotent on every input whose normalized form
  holds no comma and ends with none of the listed suffixes. (Parenthetical notes and
  whitespace never need a second pass.)
\<close>

theorem normalize_name_idempotent_on_clean_output:
  assumes comma: "CHR '','' \<notin> set (normalize_name x)"
      and suffix: "\<forall>suf \<in> set NAME_SUFFIXES. \<not> endswith (normalize_name x) suf"
  shows "normalize_name (normalize_name x) = normalize_name x"
proof -
  define r where "r = normalize_name x"
  obtain t where t: "r = collapse_ws t"
    unfolding r_def using normalize_name_collapsed by blast
  have 1: "strip r = r" unfolding t by (rule strip_collapse_ws)
  have 2: "strip_suffixes r = r"
    unfolding strip_suffixes_def using suffix [folded r_def] by (rule foldl_strip_suffix_id)
  have 3: "reorder_comma r = r" using comma [folded r_def] by (rule reorder_comma_id)
  have 4: "sub_parens r = r"
    unfolding r_def by (rule sub_parens_id [OF normalize_name_no_group])
  have 5: "collapse_ws r = r" unfolding t by (rule collapse_ws_idem)
  have "normalize_name r = r"
    by (simp add: normalize_name_def 1 2 3 4 5)
  then show ?thesis by (simp add: r_def)
qed

text \<open>The amended statement at \<open>"Smith, John (Pilot) Jr."\<close>, which normalizes to \<open>"John Smith"\<close>.\<close>

theorem normalize_name_idempotent_witness:
  "normalize_name ''Smith, John (Pilot) Jr.'' = ''John Smith''
   \<and> list_all (\<lambda>suf. \<not> endswith ''John Smith'' suf) NAME_SUFFIXES
   \<and> normalize_name (normalize_name ''Smith, John (Pilot) Jr.'') = normalize_name ''Smith, John (Pilot) Jr.''"
proof -
  have v: "normalize_name ''Smith, John (Pilot) Jr.'' = ''John Smith''" by code_simp
  have s: "list_all (\<lambda>suf. \<not> endswith ''John Smith'' suf) NAME_SUFFIXES" by code_simp
  have c: "CHR '','' \<notin> set (normalize_name ''Smith, John (Pilot) Jr.'')" unfolding v by simp
  have s': "\<forall>suf \<in> set NAME_SUFFIXES. \<not> endswith (normalize_name ''Smith, John (Pilot) Jr.'') suf"
    unfolding v using s by (simp add: list_all_iff)
  show ?thesis
    using normalize_name_idempotent_on_clean_output [OF c s'] v s by simp
qed

section \<open>Metadata merge (merge\_entities.py, \<open>_merge_metadata\<close>)\<close>

text \<open>
  \<open>str.lower()\<close> on the code points 0..255: the upper-case letters are A..Z and
  U+00C0..U+00DE without the multiplication sign U+00D7, and each maps to the code point
  32 above it (bit 5 set).
\<close>

definition isupper :: "char \<Rightarrow> bool" where
  "isupper c = (let n = (of_char c :: nat) in
     (65 \<le> n \<and> n \<le> 90) \<or> (192 \<le> n \<and> n \<le> 222 \<and> n \<noteq> 215))"

definition lower_char :: "char \<Rightarrow> char" where
  "lower_char c =
     (if isupper c
      then Char (digit0 c) (digit1 c) (digit2 c) (digit3 c) (digit4 c) True (digit6 c) (digit7 c)
      else c)"

definition lower :: "string \<Rightarrow> string" where
  "lower s = map lower_char s"

text \<open>
  A metadata column holds a JSON object; \<open>json.loads\<close> gives Python values:
  \<open>None\<close>, \<open>bool\<close>, \<open>int\<close>, \<open>float\<close> (a real number here; NaN and the infinities are
  left out), \<open>str\<close>, \<open>list\<close> and \<open>dict\<close> (an association list in insertion order).
\<close>

datatype json =
    JNull
  | JBool bool
  | JInt int
  | JFloat real
  | JStr string
  | JList "json list"
  | JObj "(string \<times> json) list"

datatype py_error = TypeError | KeyError

type_synonym meta = "(string \<times> json) list"

text \<open>
  \<open>isinstance(v, (int, float))\<close>. In Python \<open>bool\<close> is a subclass of \<open>int\<close>, so the
  test holds for \<open>True\<close> and \<open>False\<close> as well, with the values 1 and 0.
\<close>

fun is_number :: "json \<Rightarrow> bool" where
  "is_number (JBool _) = True"
| "is_number (JInt _) = True"
| "is_number (JFloat _) = True"
| "is_number _ = False"

fun num_val :: "json \<Rightarrow> real" where
  "num_val (JBool b) = (if b then 1 else 0)"
| "num_val (JInt i) = of_int i"
| "num_val (JFloat r) = r"
| "num_val _ = 0"

text \<open>\<open>max(a, b)\<close> returns \<open>b\<close> only when \<open>b > a\<close>.\<close>

definition py_max :: "json \<Rightarrow> json \<Rightarrow> json" where
  "py_max a b = (if num_val a < num_val b then b else a)"

text \<open>
  The list branch keeps a \<open>set\<close> of item keys: \<open>str(item).lower()\<close> for a string, the
  item itself otherwise. Set membership is Python equality, which identifies numbers of
  equal value (\<open>True == 1 == 1.0\<close>); a list or a dict is unhashable and the membership
  test raises \<open>TypeError\<close>.
\<close>

datatype hkey = KNone | KNum real | KStr string

fun item_key :: "json \<Rightarrow> py_error + hkey" where
  "item_key (JStr s) = Inr (KStr (lower s))"
| "item_key JNull = Inr KNone"
| "item_key (JBool b) = Inr (KNum (if b then 1 else 0))"
| "item_key (JInt i) = Inr (KNum (of_int i))"
| "item_key (JFloat r) = Inr (KNum r)"
| "item_key (JList _) = Inl TypeError"
| "item_key (JObj _) = Inl TypeError"

fun union_items :: "json list \<Rightarrow> hkey list \<Rightarrow> json list \<Rightarrow> py_error + json list" where
  "union_items [] seen result = Inr result"
| "union_items (item # items) seen result =
     (case item_key item of
        Inl e \<Rightarrow> Inl e
      | Inr k \<Rightarrow>
          if k \<in> set seen then union_items items seen result
          else union_items items (k # seen) (result @ [item]))"

text \<open>
  One iteration of \<open>for key, abs_val in absorbed_meta.items()\<close>. \<open>merged.get(key)\<close> is
  \<open>None\<close> both for a missing key and for a key holding JSON \<open>null\<close>. The branches
  follow the source's \<open>if\<close>/\<open>elif\<close> chain in its order; \<open>merged[key] = v\<close> keeps the
  position of an existing key and appends a new one (\<open>AList.update\<close>).
\<close>

fun merge_key :: "meta \<Rightarrow> string \<times> json \<Rightarrow> py_error + meta" where
  "merge_key merged (key, abs_val) =
     (case map_of merged key of
        None \<Rightarrow> Inr (AList.update key abs_val merged)
      | Some JNull \<Rightarrow> Inr (AList.update key abs_val merged)
      | Some surv_val \<Rightarrow>
          if is_number surv_val \<and> is_number abs_val
          then Inr (AList.update key (py_max surv_val abs_val) merged)
          else (case (surv_val, abs_val) of
                  (JList xs, JList ys) \<Rightarrow>
                    (case union_items (xs @ ys) [] [] of
                       Inl e \<Rightarrow> Inl e
                     | Inr result \<Rightarrow> Inr (AList.update key (JList result) merged))
                | (JBool a, JBool b) \<Rightarrow> Inr (AList.update key (JBool (a \<or> b)) merged)
                | _ \<Rightarrow> Inr merged))"

fun merge_loop :: "meta \<Rightarrow> (string \<times> json) list \<Rightarrow> py_error + meta" where
  "merge_loop merged [] = Inr merged"
| "merge_loop merged (kv # rest) =
     (case merge_key merged kv of Inl e \<Rightarrow> Inl e | Inr m \<Rightarrow> merge_loop m rest)"

definition merge_metadata :: "meta \<Rightarrow> meta \<Rightarrow> py_error + meta" where
  "merge_metadata survivor_meta absorbed_meta = merge_loop survivor_meta absorbed_meta"

lemma union_items_props:
  assumes "union_items items seen r0 = Inr r"
      and "Inr ` set seen = item_key ` set r0"
      and "distinct (map item_key r0)"
  shows "\<exists>r1. r = r0 @ r1 \<and> subseq r1 items \<and> distinct (map item_key r)
              \<and> item_key ` set r = item_key ` (set r0 \<union> set items)"
  using assms
proof (induction items arbitrary: seen r0)
  case Nil
  then show ?case by simp
next
  case (Cons item items)
  from Cons.prems(1) obtain k where k: "item_key item = Inr k"
    by (cases "item_key item") auto
  show ?case
  proof (cases "k \<in> set seen")
    case True
    with Cons.prems(1) k have "union_items items seen r0 = Inr r" by simp
    from Cons.IH [OF this Cons.prems(2) Cons.prems(3)]
    obtain r1 where r1: "r = r0 @ r1" "subseq r1 items" "distinct (map item_key r)"
      "item_key ` set r = item_key ` (set r0 \<union> set items)" by blast
    from True have "item_key item \<in> item_key ` set r0"
      unfolding k using Cons.prems(2) by blast
    with r1(4) have "item_key ` set r = item_key ` (set r0 \<union> set (item # items))" by auto
    with r1 show ?thesis by (intro exI [of _ r1]) (simp add: list_emb_Cons)
  next
    case False
    with Cons.prems(1) k have run: "union_items items (k # seen) (r0 @ [item]) = Inr r" by simp
    have inv: "Inr ` set (k # seen) = item_key ` set (r0 @ [item])"
      using Cons.prems(2) k by auto
    have "Inr k \<notin> item_key ` set r0"
      using False Cons.prems(2) [symmetric] by auto
    then have dist: "distinct (map item_key (r0 @ [item]))"
      using Cons.prems(3) k by auto
    from Cons.IH [OF run inv dist]
    obtain r1 where r1: "r = (r0 @ [item]) @ r1" "subseq r1 items" "distinct (map item_key r)"
      "item_key ` set r = item_key ` (set (r0 @ [item]) \<union> set items)" by blast
    from r1(4) have "item_key ` set r = item_key ` (set r0 \<union> set (item # items))" by auto
    with r1 show ?thesis by (intro exI [of _ "item # r1"]) simp
  qed
qed

lemma union_items_spec:
  assumes "union_items items [] [] = Inr r"
  shows "subseq r items \<and> distinct (map item_key r) \<and> item_key ` set r = item_key ` set items"
  using union_items_props [OF assms] by auto

text \<open>What one step of the loop does to the value stored under each key.\<close>

lemma map_of_merge_key_other:
  assumes "merge_key merged (k, av) = Inr m" "k' \<noteq> k"
  shows "map_of m k' = map_of merged k'"
  using assms
  by (auto simp: update_conv' split: option.splits json.splits if_splits sum.splits)

lemma merge_key_absent:
  assumes "merge_key merged (k, av) = Inr m"
      and "map_of merged k = None \<or> map_of merged k = Some JNull"
  shows "map_of m k = Some av"
  using assms by (auto simp: update_conv')

lemma merge_key_numbers:
  assumes "merge_key merged (k, av) = Inr m"
      and "map_of merged k = Some sv" "is_number sv" "is_number av"
  shows "map_of m k = Some (py_max sv av)"
  using assms by (cases sv) (auto simp: update_conv')

lemma merge_key_lists:
  assumes "merge_key merged (k, JList ys) = Inr m"
      and "map_of merged k = Some (JList xs)"
  shows "\<exists>r. union_items (xs @ ys) [] [] = Inr r \<and> map_of m k = Some (JList r)"
  using assms by (auto simp: update_conv' split: sum.splits)

lemma merge_key_keep:
  assumes "merge_key merged (k, av) = Inr m"
      and "map_of merged k = Some sv" "sv \<noteq> JNull"
      and "\<not> (is_number sv \<and> is_number av)"
      and "\<not> (\<exists>xs ys. sv = JList xs \<and> av = JList ys)"
  shows "map_of m k = Some sv"
proof (cases sv)
  case (JList xs)
  with assms show ?thesis by (cases av) auto
next
  case (JBool a)
  with assms show ?thesis by (cases av) auto
qed (use assms in auto)

lemma merge_loop_other:
  assumes "merge_loop merged absorbed = Inr m" "k \<notin> fst ` set absorbed"
  shows "map_of m k = map_of merged k"
  using assms
proof (induction absorbed arbitrary: merged)
  case Nil
  then show ?case by simp
next
  case (Cons kv rest)
  obtain k0 v0 where kv: "kv = (k0, v0)" by (cases kv)
  from Cons.prems(1) obtain m' where m': "merge_key merged (k0, v0) = Inr m'"
    and rest: "merge_loop m' rest = Inr m"
    unfolding kv by (cases "merge_key merged (k0, v0)") auto
  from Cons.prems(2) have ne: "k \<noteq> k0" and notin: "k \<notin> fst ` set rest" by (auto simp: kv)
  have "map_of m k = map_of m' k" using rest notin by (rule Cons.IH)
  also have "\<dots> = map_of merged k" using m' ne by (rule map_of_merge_key_other)
  finally show ?case .
qed

lemma merge_loop_key:
  assumes "merge_loop merged absorbed = Inr final"
      and "distinct (map fst absorbed)"
      and "map_of absorbed k = Some av"
  shows "\<exists>m1 m2. merge_key m1 (k, av) = Inr m2 \<and> map_of m1 k = map_of merged k
                 \<and> map_of final k = map_of m2 k"
  using assms
proof (induction absorbed arbitrary: merged)
  case Nil
  then show ?case by simp
next
  case (Cons kv rest)
  obtain k0 v0 where kv: "kv = (k0, v0)" by (cases kv)
  from Cons.prems(1) obtain m' where m': "merge_key merged (k0, v0) = Inr m'"
    and rest: "merge_loop m' rest = Inr final"
    unfolding kv by (cases "merge_key merged (k0, v0)") auto
  show ?case
  proof (cases "k = k0")
    case True
    with Cons.prems(3) have av: "av = v0" by (simp add: kv)
    from Cons.prems(2) True have "k \<notin> fst ` set rest" by (auto simp: kv)
    with rest have "map_of final k = map_of m' k" by (rule merge_loop_other)
    with m' True av show ?thesis by blast
  next
    case False
    with Cons.prems(3) have "map_of rest k = Some av" by (simp add: kv)
    moreover from Cons.prems(2) have "distinct (map fst rest)" by simp
    ultimately obtain m1 m2 where *: "merge_key m1 (k, av) = Inr m2"
      "map_of m1 k = map_of m' k" "map_of final k = map_of m2 k"
      using Cons.IH [OF rest] by blast
    have "map_of m' k = map_of merged k" using m' False by (rule map_of_merge_key_other)
    with * show ?thesis by metis
  qed
qed

lemma map_of_None_iff: "map_of al k = None \<longleftrightarrow> k \<notin> fst ` set al"
  by (simp add: map_of_eq_None_iff)

subsection \<open>The union keeps the first item of every key\<close>

text \<open>
  The list the specification describes, written without the loop: of the items of a list,
  in their order, exactly those are kept that no earlier item shares its key with. It is
  what \<open>union_items\<close> is compared with; \<open>keep_new\<close> is the same with a prefix already
  seen, for the induction.
\<close>

definition first_of_each_key :: "json list \<Rightarrow> json list" where
  "first_of_each_key zs =
     map ((!) zs)
       (filter (\<lambda>i. item_key (zs ! i) \<notin> item_key ` set (take i zs)) [0..<length zs])"

fun keep_new :: "json list \<Rightarrow> json list \<Rightarrow> json list" where
  "keep_new pre [] = []"
| "keep_new pre (x # xs) =
     (if item_key x \<in> item_key ` set pre then [] else [x]) @ keep_new (pre @ [x]) xs"

lemma keep_new_index:
  "keep_new pre items =
     map ((!) (pre @ items))
       (filter (\<lambda>i. item_key ((pre @ items) ! i) \<notin> item_key ` set (take i (pre @ items)))
               [length pre..<length pre + length items])"
proof (induction items arbitrary: pre)
  case Nil
  show ?case by simp
next
  case (Cons x xs)
  have "[length pre..<length pre + length (x # xs)]
        = length pre # [Suc (length pre)..<length pre + length (x # xs)]"
    by (rule upt_conv_Cons) simp
  then have upt: "[length pre..<length pre + length (x # xs)]
             = length pre # [length (pre @ [x])..<length (pre @ [x]) + length xs]"
    by simp
  have app: "pre @ x # xs = (pre @ [x]) @ xs" by simp
  have here: "(pre @ x # xs) ! length pre = x" "take (length pre) (pre @ x # xs) = pre"
    by simp_all
  show ?case
    unfolding keep_new.simps Cons.IH [of "pre @ [x]"] upt
    by (simp only: filter.simps list.map here app [symmetric] split: if_splits) simp
qed

lemma union_items_keep_new:
  assumes "union_items items seen r0 = Inr r"
      and "Inr ` set seen = item_key ` set pre"
  shows "r = r0 @ keep_new pre items"
  using assms
proof (induction items arbitrary: seen r0 pre)
  case Nil
  then show ?case by simp
next
  case (Cons item items)
  from Cons.prems(1) obtain k where k: "item_key item = Inr k"
    by (cases "item_key item") auto
  show ?case
  proof (cases "k \<in> set seen")
    case True
    with Cons.prems(1) k have run: "union_items items seen r0 = Inr r" by simp
    from True have old: "item_key item \<in> item_key ` set pre"
      unfolding k using Cons.prems(2) by blast
    then have inv: "Inr ` set seen = item_key ` set (pre @ [item])"
      using Cons.prems(2) by auto
    from Cons.IH [OF run inv] old show ?thesis by simp
  next
    case False
    with Cons.prems(1) k have run: "union_items items (k # seen) (r0 @ [item]) = Inr r" by simp
    have new: "item_key item \<notin> item_key ` set pre"
      unfolding k using False Cons.prems(2) [symmetric] by auto
    have inv: "Inr ` set (k # seen) = item_key ` set (pre @ [item])"
      using Cons.prems(2) k by auto
    from Cons.IH [OF run inv] new show ?thesis by simp
  qed
qed

lemma union_items_first_of_each_key:
  assumes "union_items items [] [] = Inr r"
  shows "r = first_of_each_key items"
proof -
  have "r = [] @ keep_new [] items" using assms by (rule union_items_keep_new) simp
  then show ?thesis by (simp add: keep_new_index [of "[]" items, simplified] first_of_each_key_def)
qed

lemma first_of_each_key_examples:
  "first_of_each_key ([JStr ''Maxwell''] @ [JStr ''MAXWELL'']) = [JStr ''Maxwell'']"
  "first_of_each_key ([JInt 1, JInt 2] @ [JInt 2, JInt 1, JInt 3]) = [JInt 1, JInt 2, JInt 3]"
  "first_of_each_key ([JInt 1, JStr ''GM''] @ [JFloat 1, JBool True, JStr ''gm'', JNull])
     = [JInt 1, JStr ''GM'', JNull]"
  by code_simp+

section \<open>Claim C8: field-by-field metadata merge\<close>

text \<open>
  C8 states that for a key present in both maps numeric values take the maximum, lists
  the order-preserving deduplicated union, booleans the logical OR and every other value
  stays the survivor's. Two inputs at which the code does something else, both by its
  explicit tests: list items that are strings are deduplicated by their lower-cased
  form, so \<open>"MAXWELL"\<close> is dropped next to \<open>"Maxwell"\<close> and the result is not the union;
  and a key the survivor holds with the value \<open>null\<close> is treated as missing, so the
  absorbed value replaces it.
\<close>

theorem merge_metadata_counterexample:
  "merge_metadata [(''search_terms'', JList [JStr ''Maxwell''])]
                  [(''search_terms'', JList [JStr ''MAXWELL''])]
     = Inr [(''search_terms'', JList [JStr ''Maxwell''])]
   \<and> merge_metadata [(''category'', JNull)] [(''category'', JStr ''pilot'')]
     = Inr [(''category'', JStr ''pilot'')]"
  by code_simp

text \<open>
  C8 as amended. When \<open>_merge_metadata\<close> returns (it raises \<open>TypeError\<close> on a list that
  holds a list or a dict), then for every key \<open>k\<close>:
  \<^item> a key of the survivor is still a key of the result;
  \<^item> a key only the survivor has keeps its value;
  \<^item> a key the survivor lacks, or holds with \<open>null\<close>, takes the absorbed value;
  \<^item> for a key in both, the survivor's value not \<open>null\<close>: two numbers (booleans count
    as the numbers 0 and 1) give the maximum, the survivor's on a tie; two booleans so
    give their logical OR; two lists give the list \<open>first_of_each_key\<close> of the survivor's
    items followed by the absorbed's: in that order, an item is kept exactly when no
    item before it has the same key (strings compared case-insensitively, numbers and
    booleans by value), so the spelling that stays is the first one, the survivor's
    before the absorbed's. That list is a subsequence of the two lists, holds no key
    twice and holds every key of the two lists; every other pair keeps the survivor's
    value.
\<close>

theorem merge_metadata_fields:
  assumes run: "merge_metadata survivor_meta absorbed_meta = Inr merged"
      and keys: "distinct (map fst absorbed_meta)"
  shows "(\<forall>sv. map_of survivor_meta k = Some sv \<longrightarrow> (\<exists>v. map_of merged k = Some v))
       \<and> (\<forall>sv. map_of survivor_meta k = Some sv \<longrightarrow> map_of absorbed_meta k = None \<longrightarrow>
              map_of merged k = Some sv)
       \<and> (\<forall>av. map_of absorbed_meta k = Some av \<longrightarrow>
              (map_of survivor_meta k = None \<or> map_of survivor_meta k = Some JNull) \<longrightarrow>
              map_of merged k = Some av)
       \<and> (\<forall>sv av. map_of survivor_meta k = Some sv \<longrightarrow> map_of absorbed_meta k = Some av \<longrightarrow>
              sv \<noteq> JNull \<longrightarrow>
              (is_number sv \<and> is_number av \<longrightarrow>
                 map_of merged k = Some (if num_val sv < num_val av then av else sv))
            \<and> (\<forall>a b. sv = JBool a \<and> av = JBool b \<longrightarrow> map_of merged k = Some (JBool (a \<or> b)))
            \<and> (\<forall>xs ys. sv = JList xs \<and> av = JList ys \<longrightarrow>
                 (\<exists>r. map_of merged k = Some (JList r) \<and> r = first_of_each_key (xs @ ys)
                      \<and> subseq r (xs @ ys) \<and> distinct (map item_key r)
                      \<and> item_key ` set r = item_key ` set (xs @ ys)))
            \<and> (\<not> (is_number sv \<and> is_number av) \<and> \<not> (\<exists>xs ys. sv = JList xs \<and> av = JList ys) \<longrightarrow>
                 map_of merged k = Some sv))"
proof -
  have loop: "merge_loop survivor_meta absorbed_meta = Inr merged"
    using run by (simp add: merge_metadata_def)
  have untouched: "map_of merged k = map_of survivor_meta k" if "map_of absorbed_meta k = None"
    using loop that by (intro merge_loop_other) (simp_all add: map_of_None_iff)
  have step: "\<exists>m1 m2. merge_key m1 (k, av) = Inr m2 \<and> map_of m1 k = map_of survivor_meta k
                 \<and> map_of merged k = map_of m2 k" if "map_of absorbed_meta k = Some av" for av
    using loop keys that by (rule merge_loop_key)
  have absent: "map_of merged k = Some av"
    if "map_of absorbed_meta k = Some av"
       "map_of survivor_meta k = None \<or> map_of survivor_meta k = Some JNull" for av
  proof -
    from step [OF that(1)] obtain m1 m2 where *: "merge_key m1 (k, av) = Inr m2"
      "map_of m1 k = map_of survivor_meta k" "map_of merged k = map_of m2 k" by blast
    from *(1) have "map_of m2 k = Some av" by (rule merge_key_absent) (use that(2) *(2) in simp)
    with * show ?thesis by simp
  qed
  have numbers: "map_of merged k = Some (if num_val sv < num_val av then av else sv)"
    if "map_of survivor_meta k = Some sv" "map_of absorbed_meta k = Some av"
       "is_number sv" "is_number av" for sv av
  proof -
    from step [OF that(2)] obtain m1 m2 where *: "merge_key m1 (k, av) = Inr m2"
      "map_of m1 k = map_of survivor_meta k" "map_of merged k = map_of m2 k" by blast
    from *(1) have "map_of m2 k = Some (py_max sv av)"
      by (rule merge_key_numbers) (use that * in simp_all)
    with * show ?thesis by (simp add: py_max_def)
  qed
  have lists: "\<exists>r. map_of merged k = Some (JList r) \<and> r = first_of_each_key (xs @ ys)
                      \<and> subseq r (xs @ ys) \<and> distinct (map item_key r)
                      \<and> item_key ` set r = item_key ` set (xs @ ys)"
    if "map_of survivor_meta k = Some (JList xs)" "map_of absorbed_meta k = Some (JList ys)"
    for xs ys
  proof -
    from step [OF that(2)] obtain m1 m2 where *: "merge_key m1 (k, JList ys) = Inr m2"
      "map_of m1 k = map_of survivor_meta k" "map_of merged k = map_of m2 k" by blast
    from *(1) have "\<exists>r. union_items (xs @ ys) [] [] = Inr r \<and> map_of m2 k = Some (JList r)"
      by (rule merge_key_lists) (use that * in simp)
    then obtain r where r: "union_items (xs @ ys) [] [] = Inr r"
      "map_of m2 k = Some (JList r)" by blast
    from union_items_spec [OF r(1)] union_items_first_of_each_key [OF r(1)] r(2) *
    show ?thesis by auto
  qed
  have keep: "map_of merged k = Some sv"
    if "map_of survivor_meta k = Some sv" "map_of absorbed_meta k = Some av" "sv \<noteq> JNull"
       "\<not> (is_number sv \<and> is_number av)" "\<not> (\<exists>xs ys. sv = JList xs \<and> av = JList ys)" for sv av
  proof -
    from step [OF that(2)] obtain m1 m2 where *: "merge_key m1 (k, av) = Inr m2"
      "map_of m1 k = map_of survivor_meta k" "map_of merged k = map_of m2 k" by blast
    from *(1) have "map_of m2 k = Some sv"
      by (rule merge_key_keep) (use that * in simp_all)
    with * show ?thesis by simp
  qed
  have bools: "map_of merged k = Some (JBool (a \<or> b))"
    if "map_of survivor_meta k = Some (JBool a)" "map_of absorbed_meta k = Some (JBool b)" for a b
    using numbers [OF that] by auto
  have present: "\<exists>v. map_of merged k = Some v" if sv: "map_of survivor_meta k = Some sv" for sv
  proof (cases "map_of absorbed_meta k")
    case None
    with untouched sv show ?thesis by simp
  next
    case (Some av)
    from step [OF Some] obtain m1 m2 where *: "merge_key m1 (k, av) = Inr m2"
      "map_of m1 k = map_of survivor_meta k" "map_of merged k = map_of m2 k" by blast
    from *(1) *(2) sv have "\<exists>v. map_of m2 k = Some v"
      by (auto simp: update_conv' split: option.splits json.splits if_splits sum.splits)
    with * show ?thesis by simp
  qed
  have c1: "\<forall>sv. map_of survivor_meta k = Some sv \<longrightarrow> (\<exists>v. map_of merged k = Some v)"
    using present by blast
  have c2: "\<forall>sv. map_of survivor_meta k = Some sv \<longrightarrow> map_of absorbed_meta k = None \<longrightarrow>
              map_of merged k = Some sv"
    using untouched by simp
  have c3: "\<forall>av. map_of absorbed_meta k = Some av \<longrightarrow>
              (map_of survivor_meta k = None \<or> map_of survivor_meta k = Some JNull) \<longrightarrow>
              map_of merged k = Some av"
    using absent by blast
  have c4: "\<forall>sv av. map_of survivor_meta k = Some sv \<longrightarrow> map_of absorbed_meta k = Some av \<longrightarrow>
              sv \<noteq> JNull \<longrightarrow>
              (is_number sv \<and> is_number av \<longrightarrow>
                 map_of merged k = Some (if num_val sv < num_val av then av else sv))
            \<and> (\<forall>a b. sv = JBool a \<and> av = JBool b \<longrightarrow> map_of merged k = Some (JBool (a \<or> b)))
            \<and> (\<forall>xs ys. sv = JList xs \<and> av = JList ys \<longrightarrow>
                 (\<exists>r. map_of merged k = Some (JList r) \<and> r = first_of_each_key (xs @ ys)
                      \<and> subseq r (xs @ ys) \<and> distinct (map item_key r)
                      \<and> item_key ` set r = item_key ` set (xs @ ys)))
            \<and> (\<not> (is_number sv \<and> is_number av) \<and> \<not> (\<exists>xs ys. sv = JList xs \<and> av = JList ys) \<longrightarrow>
                 map_of merged k = Some sv)"
  proof (intro allI impI)
    fix sv av
    assume s: "map_of survivor_meta k = Some sv" and a: "map_of absorbed_meta k = Some av"
      and nn: "sv \<noteq> JNull"
    have n: "is_number sv \<and> is_number av \<longrightarrow>
                 map_of merged k = Some (if num_val sv < num_val av then av else sv)"
      using numbers [OF s a] by blast
    have b: "\<forall>a b. sv = JBool a \<and> av = JBool b \<longrightarrow> map_of merged k = Some (JBool (a \<or> b))"
      using bools s a by simp
    have l: "\<forall>xs ys. sv = JList xs \<and> av = JList ys \<longrightarrow>
                 (\<exists>r. map_of merged k = Some (JList r) \<and> r = first_of_each_key (xs @ ys)
                      \<and> subseq r (xs @ ys) \<and> distinct (map item_key r)
                      \<and> item_key ` set r = item_key ` set (xs @ ys))"
      using lists s a by simp
    have kp: "\<not> (is_number sv \<and> is_number av) \<and> \<not> (\<exists>xs ys. sv = JList xs \<and> av = JList ys) \<longrightarrow>
                 map_of merged k = Some sv"
      using keep [OF s a nn] by blast
    show "(is_number sv \<and> is_number av \<longrightarrow>
                 map_of merged k = Some (if num_val sv < num_val av then av else sv))
            \<and> (\<forall>a b. sv = JBool a \<and> av = JBool b \<longrightarrow> map_of merged k = Some (JBool (a \<or> b)))
            \<and> (\<forall>xs ys. sv = JList xs \<and> av = JList ys \<longrightarrow>
                 (\<exists>r. map_of merged k = Some (JList r) \<and> r = first_of_each_key (xs @ ys)
                      \<and> subseq r (xs @ ys) \<and> distinct (map item_key r)
                      \<and> item_key ` set r = item_key ` set (xs @ ys)))
            \<and> (\<not> (is_number sv \<and> is_number av) \<and> \<not> (\<exists>xs ys. sv = JList xs \<and> av = JList ys) \<longrightarrow>
                 map_of merged k = Some sv)"
      using n b l kp by (intro conjI)
  qed
  show ?thesis using c1 c2 c3 c4 by (intro conjI)
qed

text \<open>The amended statement at a survivor and an absorbed map that reach every branch.\<close>

theorem merge_metadata_fields_witness:
  "merge_metadata
      [(''search_terms'', JList [JStr ''Maxwell'']), (''hop_distance_from_epstein'', JInt 3),
       (''exclude_from_analysis'', JBool False), (''category'', JNull),
       (''source_system'', JStr ''doc-explorer'')]
      [(''search_terms'', JList [JStr ''MAXWELL'', JStr ''GM'']),
       (''hop_distance_from_epstein'', JFloat 2.5), (''exclude_from_analysis'', JBool True),
       (''category'', JStr ''pilot''), (''person_type'', JStr ''associate''),
       (''source_system'', JStr ''epstein-docs'')]
    = Inr [(''search_terms'', JList [JStr ''Maxwell'', JStr ''GM'']),
           (''hop_distance_from_epstein'', JInt 3), (''exclude_from_analysis'', JBool True),
           (''category'', JStr ''pilot''), (''source_system'', JStr ''doc-explorer''),
           (''person_type'', JStr ''associate'')]
   \<and> map_of [(''search_terms'', JList [JStr ''Maxwell'', JStr ''GM'']),
           (''hop_distance_from_epstein'', JInt 3), (''exclude_from_analysis'', JBool True),
           (''category'', JStr ''pilot''), (''source_system'', JStr ''doc-explorer''),
           (''person_type'', JStr ''associate'')] ''exclude_from_analysis'' = Some (JBool True)
   \<and> first_of_each_key ([JStr ''Maxwell''] @ [JStr ''MAXWELL'', JStr ''GM''])
     = [JStr ''Maxwell'', JStr ''GM'']"
proof -
  let ?S = "[(''search_terms'', JList [JStr ''Maxwell'']), (''hop_distance_from_epstein'', JInt 3),
       (''exclude_from_analysis'', JBool False), (''category'', JNull),
       (''source_system'', JStr ''doc-explorer'')]"
  let ?A = "[(''search_terms'', JList [JStr ''MAXWELL'', JStr ''GM'']),
       (''hop_distance_from_epstein'', JFloat 2.5), (''exclude_from_analysis'', JBool True),
       (''category'', JStr ''pilot''), (''person_type'', JStr ''associate''),
       (''source_system'', JStr ''epstein-docs'')]"
  let ?M = "[(''search_terms'', JList [JStr ''Maxwell'', JStr ''GM'']),
           (''hop_distance_from_epstein'', JInt 3), (''exclude_from_analysis'', JBool True),
           (''category'', JStr ''pilot''), (''source_system'', JStr ''doc-explorer''),
           (''person_type'', JStr ''associate'')]"
  have run: "merge_metadata ?S ?A = Inr ?M" by code_simp
  have keys: "distinct (map fst ?A)" by simp
  have s: "map_of ?S ''exclude_from_analysis'' = Some (JBool False)" by simp
  have a: "map_of ?A ''exclude_from_analysis'' = Some (JBool True)" by simp
  from merge_metadata_fields [OF run keys, of "''exclude_from_analysis''"] s a
  have b: "map_of ?M ''exclude_from_analysis'' = Some (JBool (False \<or> True))" by blast
  have sl: "map_of ?S ''search_terms'' = Some (JList [JStr ''Maxwell''])" by simp
  have al: "map_of ?A ''search_terms'' = Some (JList [JStr ''MAXWELL'', JStr ''GM''])" by simp
  have nn: "JList [JStr ''Maxwell''] \<noteq> JNull" by simp
  note both = merge_metadata_fields [OF run keys, of "''search_terms''",
      THEN conjunct2, THEN conjunct2, THEN conjunct2, rule_format, OF sl al nn]
  note lists = both [THEN conjunct2, THEN conjunct2, THEN conjunct1, rule_format,
      of "[JStr ''Maxwell'']" "[JStr ''MAXWELL'', JStr ''GM'']"]
  have "\<exists>r. map_of ?M ''search_terms'' = Some (JList r)
          \<and> r = first_of_each_key ([JStr ''Maxwell''] @ [JStr ''MAXWELL'', JStr ''GM''])
          \<and> subseq r ([JStr ''Maxwell''] @ [JStr ''MAXWELL'', JStr ''GM''])
          \<and> distinct (map item_key r)
          \<and> item_key ` set r
              = item_key ` set ([JStr ''Maxwell''] @ [JStr ''MAXWELL'', JStr ''GM''])"
    by (rule lists) simp
  then obtain r where "map_of ?M ''search_terms'' = Some (JList r)"
    "r = first_of_each_key ([JStr ''Maxwell''] @ [JStr ''MAXWELL'', JStr ''GM''])"
    by (elim exE conjE)
  then have l: "first_of_each_key ([JStr ''Maxwell''] @ [JStr ''MAXWELL'', JStr ''GM''])
                  = [JStr ''Maxwell'', JStr ''GM'']" by simp
  from run b l show ?thesis by simp
qed

text \<open>A list that holds a list makes the membership test raise.\<close>

lemma merge_metadata_unhashable:
  "merge_metadata [(''sources'', JList [JList []])] [(''sources'', JList [JStr ''a''])]
     = Inl TypeError"
  by code_simp

section \<open>Python floats\<close>

text \<open>
  A Python \<open>float\<close> is an IEEE 754 binary64 number: 53 significant bits, exponents from
  -1022 (below that the spacing stays that of exponent -1022) to 1023, and every literal,
  quotient and product is the exact value rounded to the nearest representable number,
  to the one with the even significand on a tie. A float is modelled as the real number
  it stands for. \<open>to_double x\<close> is that rounding of the real \<open>x\<close>: with \<open>2 ^ e \<le> \<bar>x\<bar> < 2 ^ (e + 1)\<close>
  the representable numbers around \<open>x\<close> are the multiples of \<open>2 ^ (e - 52)\<close>. A result
  beyond the largest float would be \<open>inf\<close>, which is not modelled: the overlap scores
  rounded below lie between 0 and 1, their products with 1.5 below 2.
\<close>

definition pow2 :: "int \<Rightarrow> real" where
  "pow2 e = (if 0 \<le> e then 2 ^ nat e else 1 / 2 ^ nat (- e))"

text \<open>\<open>\<lfloor>log\<^sub>2 x\<rfloor>\<close> for \<open>x > 0\<close>, from the bit length of a natural number.\<close>

definition binary_exponent :: "real \<Rightarrow> int" where
  "binary_exponent x =
     (if 1 \<le> x then int (floorlog 2 (nat \<lfloor>x\<rfloor>)) - 1
      else - int (floorlog 2 (nat \<lceil>1 / x\<rceil> - 1)))"

definition round_half_even :: "real \<Rightarrow> int" where
  "round_half_even y =
     (let f = \<lfloor>y\<rfloor>; d = y - of_int f
      in if d < 1 / 2 then f else if 1 / 2 < d then f + 1 else if even f then f else f + 1)"

definition to_double :: "real \<Rightarrow> real" where
  "to_double x =
     (if x = 0 then 0
      else (let q = pow2 (max (binary_exponent \<bar>x\<bar>) (- 1022) - 52)
            in sgn x * of_int (round_half_even (\<bar>x\<bar> / q)) * q))"

text \<open>
  \<open>a / b\<close> on two \<open>int\<close>s (true division: the exact quotient, correctly rounded) and
  \<open>x * y\<close> on two floats.
\<close>

definition true_div :: "nat \<Rightarrow> nat \<Rightarrow> real" where
  "true_div a b = to_double (real a / real b)"

definition float_mul :: "real \<Rightarrow> real \<Rightarrow> real" where
  "float_mul x y = to_double (x * y)"

subsection \<open>The rounding is to a nearest float\<close>

text \<open>
  \<open>binary_exponent\<close> is the exponent of its argument; \<open>to_double x\<close> is a multiple of the
  spacing at \<open>x\<close> with a significand of at most 53 bits, and no multiple of the spacing is
  nearer to \<open>x\<close>.
\<close>

lemma pow2_powi: "pow2 e = 2 powi e"
  by (simp add: pow2_def power_int_def field_simps)

lemma pow2_pos: "0 < pow2 e"
  by (simp add: pow2_def)

lemma pow2_add: "pow2 (a + b) = pow2 a * pow2 b"
  by (simp add: pow2_powi power_int_add)

lemma pow2_mono: "a \<le> b \<Longrightarrow> pow2 a \<le> pow2 b"
  by (simp add: pow2_powi power_int_increasing)

lemma pow2_nat: "pow2 (int n) = 2 ^ n"
  by (simp add: pow2_def)

lemma binary_exponent_bounds:
  assumes "0 < x"
  shows "pow2 (binary_exponent x) \<le> x \<and> x < pow2 (binary_exponent x + 1)"
proof (cases "1 \<le> x")
  case True
  define n where "n = nat \<lfloor>x\<rfloor>"
  define k where "k = floorlog 2 n"
  from True have n: "0 < n" "real n \<le> x" "x < real n + 1"
    unfolding n_def by (simp_all add: of_nat_nat)
  from floorlog_bounds [of n 2] n(1) have b: "2 ^ (k - 1) \<le> n" "n < 2 ^ k"
    by (simp_all add: k_def)
  from n(1) have k: "0 < k"
    unfolding k_def using floorlog_eq_zero_iff [of 2 n] by auto
  have e: "binary_exponent x = int (k - 1)" "int (k - 1) + 1 = int k"
    using True k by (simp_all add: binary_exponent_def n_def k_def)
  have "(2::real) ^ (k - 1) \<le> real n" using of_nat_mono [OF b(1), where ?'a = real] by simp
  then have "(2::real) ^ (k - 1) \<le> x" using n(2) by linarith
  then have 1: "pow2 (int (k - 1)) \<le> x" by (simp only: pow2_nat)
  have "n + 1 \<le> 2 ^ k" using b(2) by simp
  then have "real n + 1 \<le> 2 ^ k" using of_nat_mono [of "n + 1" "2 ^ k", where ?'a = real] by simp
  then have "x < 2 ^ k" using n(3) by linarith
  then have 2: "x < pow2 (int k)" by (simp only: pow2_nat)
  from 1 2 show ?thesis unfolding e by simp
next
  case False
  with assms have x: "0 < x" "x < 1" by simp_all
  define m where "m = nat \<lceil>1 / x\<rceil>"
  define k where "k = floorlog 2 (m - 1)"
  from x have y: "1 < 1 / x" by simp
  then have c: "1 < \<lceil>1 / x\<rceil>" by (simp add: less_ceiling_iff)
  then have m: "2 \<le> m" "1 / x \<le> real m" "real m - 1 < 1 / x"
    unfolding m_def by (simp_all add: of_nat_nat) linarith+
  from floorlog_bounds [of "m - 1" 2] m(1) have b: "2 ^ (k - 1) \<le> m - 1" "m - 1 < 2 ^ k"
    by (simp_all add: k_def)
  from m(1) have k: "0 < k"
    unfolding k_def using floorlog_eq_zero_iff [of 2 "m - 1"] by auto
  have e: "binary_exponent x = - int k" using False by (simp add: binary_exponent_def m_def k_def)
  have "m \<le> 2 ^ k" using b(2) by simp
  then have "real m \<le> 2 ^ k" using of_nat_mono [of m "2 ^ k", where ?'a = real] by simp
  then have "1 / x \<le> 2 ^ k" using m(2) by linarith
  then have 1: "pow2 (- int k) \<le> x" using x(1) k by (simp add: pow2_def field_simps)
  have "(2::real) ^ (k - 1) \<le> real (m - 1)"
    using of_nat_mono [OF b(1), where ?'a = real] by simp
  also have "real (m - 1) = real m - 1" using m(1) by (simp add: of_nat_diff)
  finally have "2 ^ (k - 1) < 1 / x" using m(3) by linarith
  then have "x < 1 / 2 ^ (k - 1)" using x(1) by (simp add: field_simps)
  moreover have "pow2 (- int k + 1) = 1 / 2 ^ (k - 1)"
    using k by (cases k) (simp_all add: pow2_def)
  ultimately have 2: "x < pow2 (- int k + 1)" by simp
  from 1 2 show ?thesis unfolding e by simp
qed

lemma round_half_even_near: "\<bar>of_int (round_half_even y) - y\<bar> \<le> 1 / 2"
  by (auto simp: round_half_even_def Let_def abs_le_iff)

lemma round_half_even_nonneg: "0 \<le> y \<Longrightarrow> 0 \<le> round_half_even y"
  by (auto simp: round_half_even_def Let_def)

lemma round_half_even_le:
  assumes "y \<le> of_int n"
  shows "round_half_even y \<le> n"
proof -
  have "\<lfloor>y\<rfloor> \<le> n" using assms by (simp add: floor_le_iff)
  moreover have "\<lfloor>y\<rfloor> < n" if "y \<noteq> of_int \<lfloor>y\<rfloor>"
    using that assms by (metis floor_less_iff le_less linorder_not_le of_int_floor_le order_trans floor_of_int)
  moreover have "y - of_int \<lfloor>y\<rfloor> < 1 / 2" if "y = of_int \<lfloor>y\<rfloor>" using that by simp
  ultimately show ?thesis
    by (auto simp: round_half_even_def Let_def)
qed


lemma pow2_quantum: "pow2 (E + 1) = pow2 53 * pow2 (E - 52)"
proof -
  have "pow2 (E + 1) = pow2 (53 + (E - 52))" by (rule arg_cong [of _ _ pow2]) simp
  then show ?thesis by (simp only: pow2_add)
qed

lemma to_double_nearest:
  assumes "x \<noteq> 0"
  shows "\<exists>m. to_double x = of_int m * pow2 (max (binary_exponent \<bar>x\<bar>) (- 1022) - 52)
            \<and> \<bar>m\<bar> \<le> 2 ^ 53
            \<and> \<bar>to_double x - x\<bar> \<le> pow2 (max (binary_exponent \<bar>x\<bar>) (- 1022) - 52) / 2"
proof -
  define E where "E = max (binary_exponent \<bar>x\<bar>) (- 1022)"
  define q where "q = pow2 (E - 52)"
  define r where "r = round_half_even (\<bar>x\<bar> / q)"
  have q: "0 < q" by (simp add: q_def pow2_pos)
  have td: "to_double x = sgn x * of_int r * q"
    using assms by (simp add: to_double_def Let_def E_def q_def r_def)
  from assms have "0 < \<bar>x\<bar>" by simp
  from binary_exponent_bounds [OF this] have "\<bar>x\<bar> < pow2 (binary_exponent \<bar>x\<bar> + 1)" by simp
  also have "\<dots> \<le> pow2 (E + 1)" by (rule pow2_mono) (simp add: E_def)
  also have "pow2 (E + 1) = pow2 53 * q" unfolding q_def by (rule pow2_quantum)
  finally have "\<bar>x\<bar> / q < pow2 53" using q by (simp add: field_simps)
  also have "pow2 53 = of_int (2 ^ 53)" by (simp add: pow2_def)
  finally have "\<bar>x\<bar> / q \<le> of_int (2 ^ 53)" by simp
  then have hi: "r \<le> 2 ^ 53" unfolding r_def by (rule round_half_even_le)
  have lo: "0 \<le> r" unfolding r_def using q by (intro round_half_even_nonneg) simp
  have near: "\<bar>of_int r - \<bar>x\<bar> / q\<bar> \<le> 1 / 2" unfolding r_def by (rule round_half_even_near)
  have "to_double x - x = sgn x * ((of_int r - \<bar>x\<bar> / q) * q)"
    using q by (simp add: td field_simps sgn_real_def)
  then have "\<bar>to_double x - x\<bar> = \<bar>of_int r - \<bar>x\<bar> / q\<bar> * q"
    using assms q by (simp add: abs_mult sgn_real_def)
  also have "\<dots> \<le> 1 / 2 * q" using near q by (intro mult_right_mono) simp_all
  finally have err: "\<bar>to_double x - x\<bar> \<le> q / 2" by simp
  have rep: "to_double x = of_int (if 0 < x then r else - r) * q"
    "\<bar>if 0 < x then r else - r\<bar> \<le> 2 ^ 53"
    using hi lo assms by (simp_all add: td sgn_real_def)
  from rep err show ?thesis unfolding q_def E_def by blast
qed

lemma to_double_le_one:
  assumes "0 \<le> x" "x \<le> 1"
  shows "to_double x \<le> 1"
proof (cases "x = 0")
  case True
  then show ?thesis by (simp add: to_double_def)
next
  case False
  with assms have x: "0 < x" by simp
  define E where "E = max (binary_exponent x) (- 1022)"
  define q where "q = pow2 (E - 52)"
  define r where "r = round_half_even (x / q)"
  have q: "0 < q" by (simp add: q_def pow2_pos)
  have td: "to_double x = of_int r * q"
    using x by (simp add: to_double_def Let_def E_def q_def r_def)
  show ?thesis
  proof (cases "x = 1")
    case True
    have "to_double 1 = 1" by code_simp
    with True show ?thesis by simp
  next
    case False
    with assms have x1: "x < 1" by simp
    from binary_exponent_bounds [OF x] have b: "pow2 (binary_exponent x) \<le> x"
      "x < pow2 (binary_exponent x + 1)" by simp_all
    have "binary_exponent x < 0"
    proof (rule ccontr)
      assume "\<not> binary_exponent x < 0"
      then have "pow2 0 \<le> pow2 (binary_exponent x)" by (intro pow2_mono) simp
      with b(1) x1 show False by (simp add: pow2_def)
    qed
    then have E: "E + 1 \<le> 0" by (simp add: E_def)
    have "x < pow2 (E + 1)"
      using b(2) pow2_mono [of "binary_exponent x + 1" "E + 1"] by (simp add: E_def)
    also have "pow2 (E + 1) = pow2 53 * q" unfolding q_def by (rule pow2_quantum)
    finally have "x / q < pow2 53" using q by (simp add: field_simps)
    also have "pow2 53 = of_int (2 ^ 53)" by (simp add: pow2_def)
    finally have "x / q \<le> of_int (2 ^ 53)" by simp
    then have "r \<le> 2 ^ 53" unfolding r_def by (rule round_half_even_le)
    then have "(of_int r :: real) \<le> of_int (2 ^ 53)" by (simp only: of_int_le_iff)
    then have "of_int r * q \<le> of_int (2 ^ 53) * q" using q by (intro mult_right_mono) simp_all
    also have "of_int (2 ^ 53) * q = pow2 53 * q" by (simp add: pow2_def)
    also have "\<dots> = pow2 (E + 1)" unfolding q_def by (rule pow2_quantum [symmetric])
    also have "\<dots> \<le> pow2 0" using E by (intro pow2_mono)
    finally show ?thesis by (simp add: td pow2_def)
  qed
qed

lemma to_double_zero [simp]: "to_double 0 = 0"
  by (simp add: to_double_def)

lemma to_double_nonneg: "0 \<le> x \<Longrightarrow> 0 \<le> to_double x"
  using pow2_pos round_half_even_nonneg [of "x / pow2 (max (binary_exponent x) (- 1022) - 52)"]
  by (auto simp: to_double_def Let_def less_imp_le)

text \<open>
  The literals used below as Python reads them: \<open>0.05\<close> is \<open>0x1.999999999999ap-5\<close>,
  \<open>0.6\<close> is \<open>0x1.3333333333333p-1\<close>, \<open>0.9\<close> is \<open>0x1.ccccccccccccdp-1\<close>; \<open>1.5\<close>, \<open>1\<close>
  and \<open>0.75\<close> are floats.
\<close>

lemma to_double_values:
  "to_double 0.05 = 3602879701896397 / 2 ^ 56"
  "to_double 0.6 = 5404319552844595 / 2 ^ 53"
  "to_double 0.9 = 8106479329266893 / 2 ^ 53"
  "to_double 1.5 = 1.5"
  "to_double 1 = 1"
  "to_double 0.75 = 0.75"
  by code_simp+

section \<open>The persisted store\<close>

text \<open>
  The tables of the SQLite store, with the columns the merge engine reads or writes.
  JSON columns hold the parsed value: \<open>aliases\<close> a list of strings and \<open>metadata\<close> an
  object (a NULL or empty column reads as \<open>[]\<close> or \<open>{}\<close>); \<open>source_documents\<close> is \<open>None\<close>
  for a NULL, empty or unparseable column, which \<open>_consolidate_duplicate_relationships\<close>
  reads as the empty list. \<open>weight\<close> is \<open>None\<close> for NULL (\<open>r["weight"] or 0\<close>); a REAL
  column holds a float, modelled as the real number it stands for. Tables are lists of
  rows in the order of their row ids.
\<close>

record entity =
  canonical_id :: string
  entity_type :: string
  canonical_name :: string
  aliases :: "string list"
  metadata :: "(string \<times> json) list"
  last_updated :: string

record relationship =
  relationship_id :: nat
  source_entity_id :: string
  target_entity_id :: string
  relationship_type :: string
  weight :: "real option"
  source_documents :: "string list option"

record relationship_source =
  rs_id :: nat
  rs_relationship_id :: nat
  rs_source_system :: string

record resolution_log =
  resolution_id :: nat
  rl_canonical_id :: string
  rl_source_entity_name :: string

record entity_merge =
  survivor_id :: string
  absorbed_id :: string
  survivor_name :: string
  absorbed_name :: string
  merge_reason :: string
  match_key :: string
  relationships_repointed :: nat
  resolution_logs_repointed :: nat
  duplicate_rels_consolidated :: nat
  merged_at :: string

record db =
  canonical_entities :: "entity list"
  relationships :: "relationship list"
  relationship_sources :: "relationship_source list"
  entity_resolution_log :: "resolution_log list"
  entity_merges :: "entity_merge list"

section \<open>Relationship consolidation (\<open>_consolidate_duplicate_relationships\<close>)\<close>

text \<open>\<open>WHERE source_entity_id = ? OR target_entity_id = ?\<close>\<close>

definition touches :: "string \<Rightarrow> relationship \<Rightarrow> bool" where
  "touches entity_id r = (source_entity_id r = entity_id \<or> target_entity_id r = entity_id)"

definition weight_of :: "relationship \<Rightarrow> real" where
  "weight_of r = (case weight r of None \<Rightarrow> 0 | Some w \<Rightarrow> w)"

definition docs_of :: "relationship \<Rightarrow> string list" where
  "docs_of r = (case source_documents r of None \<Rightarrow> [] | Some ds \<Rightarrow> ds)"

text \<open>
  The grouping key \<open>(pair[0], pair[1], relationship_type)\<close> with
  \<open>pair = tuple(sorted([source, target]))\<close>; Python orders strings by code point, as the
  lexicographic order on \<open>string\<close> does.
\<close>

definition group_key :: "relationship \<Rightarrow> string \<times> string \<times> string" where
  "group_key r =
     (min (source_entity_id r) (target_entity_id r),
      max (source_entity_id r) (target_entity_id r),
      relationship_type r)"

text \<open>
  \<open>groups[key].append(r)\<close> on a \<open>defaultdict(list)\<close>: keys in the order of their
  first row, rows of a group in the order read.
\<close>

fun add_to_group :: "'k \<Rightarrow> 'v \<Rightarrow> ('k \<times> 'v list) list \<Rightarrow> ('k \<times> 'v list) list" where
  "add_to_group k v [] = [(k, [v])]"
| "add_to_group k v ((k', vs) # groups) =
     (if k' = k then (k', vs @ [v]) # groups else (k', vs) # add_to_group k v groups)"

definition group_rels :: "relationship list \<Rightarrow> ((string \<times> string \<times> string) \<times> relationship list) list" where
  "group_rels rels = foldl (\<lambda>groups r. add_to_group (group_key r) r groups) [] rels"

text \<open>
  The body of \<open>for loser in group[1:]\<close>. \<open>survivor_rel\<close> is the row as it was
  fetched before the loop: its weight and documents are read from that row at every
  iteration, not from the table. \<open>set_list\<close> stands for \<open>list(set(...))\<close>, whose order
  Python does not fix. The new weight is a sum of two floats, so it is rounded (a sum
  beyond the largest float, about \<open>1.8e308\<close>, would be \<open>inf\<close>; that is not modelled). The
  three statements are the \<open>UPDATE\<close> of the survivor row, the
  \<open>UPDATE\<close> moving the loser's provenance rows, and the \<open>DELETE\<close> of the loser.
\<close>

definition merge_loser ::
  "(string list \<Rightarrow> string list) \<Rightarrow> relationship \<Rightarrow> db \<Rightarrow> relationship \<Rightarrow> db" where
  "merge_loser set_list survivor_rel d loser =
     (let survivor_rid = relationship_id survivor_rel;
          loser_rid = relationship_id loser;
          merged_docs = take 200 (set_list (docs_of survivor_rel @ docs_of loser));
          new_weight = to_double (weight_of survivor_rel + weight_of loser)
      in d\<lparr>relationships :=
             filter (\<lambda>r. relationship_id r \<noteq> loser_rid)
               (map (\<lambda>r. if relationship_id r = survivor_rid
                         then r\<lparr>weight := Some new_weight, source_documents := Some merged_docs\<rparr>
                         else r)
                    (relationships d)),
           relationship_sources :=
             map (\<lambda>s. if rs_relationship_id s = loser_rid
                       then s\<lparr>rs_relationship_id := survivor_rid\<rparr> else s)
                 (relationship_sources d)\<rparr>)"

text \<open>
  One group: skipped when it has fewer than two rows; otherwise sorted by
  \<open>-(weight or 0)\<close> (Python's sort is stable, as \<open>sort_key\<close> is), the first row
  survives and every other row is a loser.
\<close>

definition consolidate_group ::
  "(string list \<Rightarrow> string list) \<Rightarrow> db \<times> nat \<Rightarrow> relationship list \<Rightarrow> db \<times> nat" where
  "consolidate_group set_list st grp =
     (if length grp < 2 then st
      else (let sorted = sort_key (\<lambda>r. - weight_of r) grp;
                survivor_rel = hd sorted
            in (foldl (merge_loser set_list survivor_rel) (fst st) (tl sorted),
                snd st + length (tl sorted))))"

text \<open>
  The \<open>SELECT\<close> has no \<open>ORDER BY\<close>, so SQL fixes no order for \<open>rels\<close>. The rows are taken
  here in table order. SQLite may instead answer the \<open>OR\<close> from the two indexes of the
  table, the rows with the entity as source first and those with it as target after
  them. The order of \<open>rels\<close> decides the order of the groups and, between two edges of
  equal weight in a group, which one the stable sort puts first and so keeps; it decides
  neither which groups there are nor how many edges of a group are deleted.
\<close>

definition consolidate_duplicate_relationships ::
  "(string list \<Rightarrow> string list) \<Rightarrow> db \<Rightarrow> string \<Rightarrow> db \<times> nat" where
  "consolidate_duplicate_relationships set_list d entity_id =
     (let rels = filter (touches entity_id) (relationships d);
          groups = group_rels rels
      in foldl (consolidate_group set_list) (d, 0) (map snd groups))"

section \<open>Merging, deleting and flagging entities\<close>

text \<open>The statistics dictionary \<open>merge_entity_pair\<close> returns.\<close>

record merge_stats =
  stat_relationships_repointed :: nat
  stat_resolution_logs_repointed :: nat
  stat_duplicate_rels_consolidated :: nat

definition zero_stats :: merge_stats where
  "zero_stats = \<lparr>stat_relationships_repointed = 0, stat_resolution_logs_repointed = 0,
                  stat_duplicate_rels_consolidated = 0\<rparr>"

definition find_entity :: "db \<Rightarrow> string \<Rightarrow> entity option" where
  "find_entity d cid = find (\<lambda>e. canonical_id e = cid) (canonical_entities d)"

definition update_entity :: "string \<Rightarrow> (entity \<Rightarrow> entity) \<Rightarrow> db \<Rightarrow> db" where
  "update_entity cid f d =
     d\<lparr>canonical_entities := map (\<lambda>e. if canonical_id e = cid then f e else e) (canonical_entities d)\<rparr>"

text \<open>
  Step 1 of \<open>merge_entity_pair\<close>: the survivor's aliases, then the absorbed name, then the
  absorbed aliases, each added only when non-empty and not yet present case-insensitively
  (the survivor's own name counts as present).
\<close>

fun add_aliases :: "string list \<Rightarrow> string list \<Rightarrow> string list \<Rightarrow> string list" where
  "add_aliases surv_aliases existing_lower [] = surv_aliases"
| "add_aliases surv_aliases existing_lower (alias # rest) =
     (if alias \<noteq> [] \<and> lower alias \<notin> set existing_lower
      then add_aliases (surv_aliases @ [alias]) (lower alias # existing_lower) rest
      else add_aliases surv_aliases existing_lower rest)"

definition merged_aliases :: "entity \<Rightarrow> entity \<Rightarrow> string list" where
  "merged_aliases survivor absorbed =
     (let surv_aliases = aliases survivor;
          existing_lower = lower (canonical_name survivor) # map lower surv_aliases;
          absorbed_name = canonical_name absorbed
      in if lower absorbed_name \<notin> set existing_lower
         then add_aliases (surv_aliases @ [absorbed_name]) (lower absorbed_name # existing_lower)
                (aliases absorbed)
         else add_aliases surv_aliases existing_lower (aliases absorbed))"

text \<open>
  Steps 2 and 3: the two \<open>UPDATE relationships SET col = ? WHERE col = ?\<close> statements,
  one per column, and the \<open>UPDATE\<close> of the resolution log; the counts are the
  \<open>rowcount\<close>s.
\<close>

definition repoint_relationships :: "db \<Rightarrow> string \<Rightarrow> string \<Rightarrow> db \<times> nat" where
  "repoint_relationships d survivor absorbed =
     (let n_source = length (filter (\<lambda>r. source_entity_id r = absorbed) (relationships d));
          rels1 = map (\<lambda>r. if source_entity_id r = absorbed
                            then r\<lparr>source_entity_id := survivor\<rparr> else r) (relationships d);
          n_target = length (filter (\<lambda>r. target_entity_id r = absorbed) rels1);
          rels2 = map (\<lambda>r. if target_entity_id r = absorbed
                            then r\<lparr>target_entity_id := survivor\<rparr> else r) rels1
      in (d\<lparr>relationships := rels2\<rparr>, n_source + n_target))"

definition repoint_resolution_log :: "db \<Rightarrow> string \<Rightarrow> string \<Rightarrow> db \<times> nat" where
  "repoint_resolution_log d survivor absorbed =
     (d\<lparr>entity_resolution_log :=
          map (\<lambda>l. if rl_canonical_id l = absorbed then l\<lparr>rl_canonical_id := survivor\<rparr> else l)
              (entity_resolution_log d)\<rparr>,
      length (filter (\<lambda>l. rl_canonical_id l = absorbed) (entity_resolution_log d)))"

text \<open>
  \<open>DELETE FROM relationship_sources WHERE relationship_id = ?\<close> followed by
  \<open>DELETE FROM relationships WHERE relationship_id = ?\<close>.
\<close>

definition delete_relationship :: "db \<Rightarrow> nat \<Rightarrow> db" where
  "delete_relationship d rid =
     d\<lparr>relationship_sources := filter (\<lambda>s. rs_relationship_id s \<noteq> rid) (relationship_sources d),
       relationships := filter (\<lambda>r. relationship_id r \<noteq> rid) (relationships d)\<rparr>"

definition remove_self_refs :: "db \<Rightarrow> string \<Rightarrow> db" where
  "remove_self_refs d survivor =
     foldl delete_relationship d
       (map relationship_id
          (filter (\<lambda>r. source_entity_id r = survivor \<and> target_entity_id r = survivor)
                  (relationships d)))"

text \<open>
  \<open>merge_entity_pair\<close>. \<open>now1\<close> and \<open>now2\<close> are what \<open>now_iso()\<close> returns at its two
  calls. The only exception inside is the \<open>TypeError\<close> of the metadata merge.
\<close>

definition merge_entity_pair ::
  "(string list \<Rightarrow> string list) \<Rightarrow> string \<Rightarrow> string \<Rightarrow> db \<Rightarrow> string \<Rightarrow> string \<Rightarrow> string
     \<Rightarrow> string \<Rightarrow> bool \<Rightarrow> py_error + db \<times> merge_stats" where
  "merge_entity_pair set_list now1 now2 d survivor absorbed reason mkey dry_run =
     (case find_entity d survivor of
        None \<Rightarrow> Inr (d, zero_stats)
      | Some surv_row \<Rightarrow>
     (case find_entity d absorbed of
        None \<Rightarrow> Inr (d, zero_stats)
      | Some abs_row \<Rightarrow>
          if dry_run then Inr (d, zero_stats)
          else
            (let d1 = update_entity survivor
                        (\<lambda>e. e\<lparr>aliases := merged_aliases surv_row abs_row, last_updated := now1\<rparr>) d
             in case merge_metadata (metadata surv_row) (metadata abs_row) of
                  Inl err \<Rightarrow> Inl err
                | Inr merged_meta \<Rightarrow>
                    (let d2 = update_entity survivor (\<lambda>e. e\<lparr>metadata := merged_meta\<rparr>) d1;
                         (d3, n_rel) = repoint_relationships d2 survivor absorbed;
                         (d4, n_log) = repoint_resolution_log d3 survivor absorbed;
                         (d5, n_dup) = consolidate_duplicate_relationships set_list d4 survivor;
                         d6 = remove_self_refs d5 survivor;
                         d7 = d6\<lparr>canonical_entities :=
                                  filter (\<lambda>e. canonical_id e \<noteq> absorbed) (canonical_entities d6)\<rparr>;
                         d8 = d7\<lparr>entity_merges := entity_merges d7 @
                                  [\<lparr>survivor_id = survivor, absorbed_id = absorbed,
                                    survivor_name = canonical_name surv_row,
                                    absorbed_name = canonical_name abs_row,
                                    merge_reason = reason, match_key = mkey,
                                    relationships_repointed = n_rel,
                                    resolution_logs_repointed = n_log,
                                    duplicate_rels_consolidated = n_dup,
                                    merged_at = now2\<rparr>]\<rparr>
                     in Inr (d8, \<lparr>stat_relationships_repointed = n_rel,
                                  stat_resolution_logs_repointed = n_log,
                                  stat_duplicate_rels_consolidated = n_dup\<rparr>)))))"

definition delete_noise_entity ::
  "string \<Rightarrow> db \<Rightarrow> string \<Rightarrow> string \<Rightarrow> string \<Rightarrow> bool \<Rightarrow> db \<times> nat \<times> nat" where
  "delete_noise_entity now d cid name reason dry_run =
     (if dry_run then (d, 0, 0)
      else
        (let rel_ids = map relationship_id (filter (touches cid) (relationships d));
             d1 = foldl delete_relationship d rel_ids;
             d2 = d1\<lparr>entity_resolution_log :=
                      filter (\<lambda>l. rl_canonical_id l \<noteq> cid) (entity_resolution_log d1)\<rparr>;
             d3 = d2\<lparr>canonical_entities :=
                      filter (\<lambda>e. canonical_id e \<noteq> cid) (canonical_entities d2)\<rparr>;
             d4 = d3\<lparr>entity_merges := entity_merges d3 @
                      [\<lparr>survivor_id = ''NOISE_DELETED'', absorbed_id = cid,
                        survivor_name = ''N/A'', absorbed_name = name,
                        merge_reason = ''noise_removal: '' @ reason, match_key = lower name,
                        relationships_repointed = 0, resolution_logs_repointed = 0,
                        duplicate_rels_consolidated = 0, merged_at = now\<rparr>]\<rparr>
         in (d4, length rel_ids, length rel_ids)))"

definition flag_noise_entity :: "string \<Rightarrow> db \<Rightarrow> string \<Rightarrow> string \<Rightarrow> string \<Rightarrow> bool \<Rightarrow> db" where
  "flag_noise_entity now d cid name reason dry_run =
     (if dry_run then d
      else
        (let meta = (case find_entity d cid of None \<Rightarrow> [] | Some row \<Rightarrow> metadata row);
             meta1 = AList.update ''exclude_from_analysis'' (JBool True) meta;
             meta2 = AList.update ''exclude_reason'' (JStr reason) meta1
         in update_entity cid (\<lambda>e. e\<lparr>metadata := meta2, last_updated := now\<rparr>) d))"

text \<open>\<open>_get_prominence\<close>: \<open>SELECT COUNT(*)\<close> of the edges touching the entity.\<close>

definition prominence :: "db \<Rightarrow> string \<Rightarrow> nat" where
  "prominence d cid = length (filter (touches cid) (relationships d))"

section \<open>Facts about grouping and consolidation\<close>

lemma map_of_add_to_group:
  "map_of (add_to_group k v groups) =
     (map_of groups)(k \<mapsto> (case map_of groups k of None \<Rightarrow> [v] | Some vs \<Rightarrow> vs @ [v]))"
  by (induction groups) (auto simp: fun_eq_iff)

lemma fst_add_to_group: "map fst (add_to_group k v groups) =
    (if k \<in> set (map fst groups) then map fst groups else map fst groups @ [k])"
proof (induction groups)
  case Nil
  show ?case by simp
next
  case (Cons kv groups)
  obtain k' vs where kv: "kv = (k', vs)" by (cases kv)
  show ?case
  proof (cases "k' = k")
    case True
    then show ?thesis by (simp add: kv)
  next
    case False
    with Cons show ?thesis by (simp add: kv)
  qed
qed

lemma group_rels_snoc:
  "group_rels (rels @ [r]) = add_to_group (group_key r) r (group_rels rels)"
  by (simp add: group_rels_def)

lemma group_rels_keys: "distinct (map fst (group_rels rels))"
proof (induction rels rule: rev_induct)
  case Nil
  show ?case by (simp add: group_rels_def)
next
  case (snoc r rels)
  then show ?case by (simp add: group_rels_snoc fst_add_to_group)
qed

lemma map_of_group_rels:
  "map_of (group_rels rels) k =
     (if filter (\<lambda>r. group_key r = k) rels = [] then None
      else Some (filter (\<lambda>r. group_key r = k) rels))"
proof (induction rels rule: rev_induct)
  case Nil
  show ?case by (simp add: group_rels_def)
next
  case (snoc r rels)
  then show ?case by (auto simp: group_rels_snoc map_of_add_to_group)
qed

lemma group_rels_member:
  "(k, g) \<in> set (group_rels rels) \<longleftrightarrow>
     g = filter (\<lambda>r. group_key r = k) rels \<and> g \<noteq> []"
proof -
  have "(k, g) \<in> set (group_rels rels) \<longleftrightarrow> map_of (group_rels rels) k = Some g"
    using group_rels_keys [of rels] by (auto intro: map_of_is_SomeI dest: map_of_SomeD)
  then show ?thesis by (auto simp: map_of_group_rels)
qed

definition frame :: "(relationship \<Rightarrow> relationship) \<Rightarrow> bool" where
  "frame F = (\<forall>r. relationship_id (F r) = relationship_id r
               \<and> source_entity_id (F r) = source_entity_id r
               \<and> target_entity_id (F r) = target_entity_id r
               \<and> relationship_type (F r) = relationship_type r)"

definition shaped :: "relationship list \<Rightarrow> nat set \<Rightarrow> relationship list \<Rightarrow> bool" where
  "shaped R0 L rels =
     (\<exists>F. frame F \<and> rels = filter (\<lambda>r. relationship_id r \<notin> L) (map F R0))"

lemma shaped_init: "shaped R0 {} R0"
  unfolding shaped_def by (rule exI [of _ "\<lambda>r. r"]) (simp add: frame_def)

lemma shaped_merge_loser:
  assumes "shaped R0 L (relationships d)"
  shows "shaped R0 (insert (relationship_id l) L) (relationships (merge_loser sl s d l))"
proof -
  from assms obtain F where F: "frame F"
    and rels: "relationships d = filter (\<lambda>r. relationship_id r \<notin> L) (map F R0)"
    unfolding shaped_def by blast
  define G :: "relationship \<Rightarrow> relationship"
    where "G = (\<lambda>r. if relationship_id r = relationship_id s
       then r\<lparr>weight := Some (to_double (weight_of s + weight_of l)),
              source_documents := Some (take 200 (sl (docs_of s @ docs_of l)))\<rparr>
       else r)"
  have G: "frame G" by (simp add: frame_def G_def)
  have new: "relationships (merge_loser sl s d l) =
      filter (\<lambda>r. relationship_id r \<noteq> relationship_id l) (map G (relationships d))"
    by (simp add: merge_loser_def G_def Let_def)
  have idG: "relationship_id (G r) = relationship_id r" for r using G by (simp add: frame_def)
  have "map G (filter (\<lambda>r. relationship_id r \<notin> L) (map F R0)) =
        filter (\<lambda>r. relationship_id r \<notin> L) (map (G \<circ> F) R0)"
    by (simp add: filter_map o_def idG)
  then have "relationships (merge_loser sl s d l) =
      filter (\<lambda>r. relationship_id r \<notin> insert (relationship_id l) L) (map (G \<circ> F) R0)"
    unfolding new rels by (simp add: conj_commute)
  moreover have "frame (G \<circ> F)" using F G by (simp add: frame_def)
  ultimately show ?thesis unfolding shaped_def by blast
qed

lemma shaped_losers:
  assumes "shaped R0 L (relationships d)"
  shows "shaped R0 (L \<union> relationship_id ` set losers)
           (relationships (foldl (merge_loser sl s) d losers))"
  using assms
proof (induction losers arbitrary: d L)
  case Nil
  then show ?case by simp
next
  case (Cons l losers)
  from Cons.prems have "shaped R0 (insert (relationship_id l) L) (relationships (merge_loser sl s d l))"
    by (rule shaped_merge_loser)
  from Cons.IH [OF this] show ?case by simp
qed

definition losers_of :: "relationship list \<Rightarrow> nat set" where
  "losers_of grp =
     (if length grp < 2 then {}
      else relationship_id ` set (tl (sort_key (\<lambda>r. - weight_of r) grp)))"

lemma shaped_group:
  assumes "shaped R0 L (relationships (fst st))"
  shows "shaped R0 (L \<union> losers_of grp) (relationships (fst (consolidate_group sl st grp)))"
proof (cases "length grp < 2")
  case True
  with assms show ?thesis by (simp add: consolidate_group_def losers_of_def)
next
  case False
  then show ?thesis
    using shaped_losers [OF assms]
    by (simp add: consolidate_group_def losers_of_def Let_def)
qed

lemma shaped_groups:
  assumes "shaped R0 L (relationships (fst st))"
  shows "shaped R0 (L \<union> \<Union> (losers_of ` set groups))
           (relationships (fst (foldl (consolidate_group sl) st groups)))"
  using assms
proof (induction groups arbitrary: st L)
  case Nil
  then show ?case by simp
next
  case (Cons g groups)
  from Cons.prems have "shaped R0 (L \<union> losers_of g) (relationships (fst (consolidate_group sl st g)))"
    by (rule shaped_group)
  from Cons.IH [OF this] show ?case by (simp add: Un_assoc)
qed

lemma group_key_frame: "frame F \<Longrightarrow> group_key (F r) = group_key r"
  by (simp add: frame_def group_key_def)

lemma touches_frame: "frame F \<Longrightarrow> touches e (F r) = touches e r"
  by (simp add: frame_def touches_def)

lemma survivors_at_most_one:
  assumes "2 \<le> length G \<longrightarrow> losers_of G \<subseteq> L"
  shows "length (filter (\<lambda>r. relationship_id r \<notin> L) G) \<le> 1"
proof (cases "length G < 2")
  case True
  have "length (filter (\<lambda>r. relationship_id r \<notin> L) G) \<le> length G" by simp
  with True show ?thesis by linarith
next
  case False
  define sorted where "sorted = sort_key (\<lambda>r. - weight_of r) G"
  have "length sorted = length G" by (simp add: sorted_def)
  with False obtain h T where hT: "sorted = h # T" by (cases sorted) auto
  from False assms have "relationship_id ` set T \<subseteq> L"
    by (simp add: losers_of_def sorted_def [symmetric] hT)
  then have T: "filter (\<lambda>r. relationship_id r \<notin> L) T = []"
    by (auto simp: filter_empty_conv)
  have "length (filter (\<lambda>r. relationship_id r \<notin> L) G)
        = length (sort_key (\<lambda>r. - weight_of r) (filter (\<lambda>r. relationship_id r \<notin> L) G))"
    by simp
  also have "\<dots> = length (filter (\<lambda>r. relationship_id r \<notin> L) sorted)"
    by (simp add: sorted_def filter_sort)
  also have "\<dots> \<le> 1" by (simp add: hT T)
  finally show ?thesis .
qed

lemma consolidate_groups_small:
  assumes "\<forall>g \<in> set groups. length g < 2"
  shows "foldl (consolidate_group sl) st groups = st"
  using assms by (induction groups arbitrary: st) (auto simp: consolidate_group_def)

section \<open>Claim C1: what consolidation leaves in a group\<close>

text \<open>
  C1 states that after consolidation the one surviving edge of a group holds the sum of
  all the group's weights and the union of all its document lists. Here are three edges
  between the same two persons with the same type, with weights 3, 2 and 1 and one
  document each. The loop adds each loser to the survivor row as first fetched, so the
  second update overwrites the first: the survivor ends with weight \<open>3 + 1 = 4\<close> instead
  of 6, and without the document of the edge with weight 2.
\<close>

definition three_edges_db :: db where
  "three_edges_db = \<lparr>canonical_entities = [],
     relationships =
       [\<lparr>relationship_id = 1, source_entity_id = ''PER-00001'', target_entity_id = ''PER-00002'',
         relationship_type = ''traveled_with'', weight = Some 3, source_documents = Some [''EFTA00000001'']\<rparr>,
        \<lparr>relationship_id = 2, source_entity_id = ''PER-00002'', target_entity_id = ''PER-00001'',
         relationship_type = ''traveled_with'', weight = Some 2, source_documents = Some [''EFTA00000002'']\<rparr>,
        \<lparr>relationship_id = 3, source_entity_id = ''PER-00001'', target_entity_id = ''PER-00002'',
         relationship_type = ''traveled_with'', weight = Some 1, source_documents = Some [''EFTA00000003'']\<rparr>],
     relationship_sources = [\<lparr>rs_id = 1, rs_relationship_id = 1, rs_source_system = ''a''\<rparr>,
        \<lparr>rs_id = 2, rs_relationship_id = 2, rs_source_system = ''b''\<rparr>, \<lparr>rs_id = 3, rs_relationship_id = 3, rs_source_system = ''c''\<rparr>],
     entity_resolution_log = [], entity_merges = []\<rparr>"


theorem consolidate_three_edges:
  "relationships (fst (consolidate_duplicate_relationships remdups three_edges_db ''PER-00001'')) =
     [\<lparr>relationship_id = 1, source_entity_id = ''PER-00001'', target_entity_id = ''PER-00002'',
       relationship_type = ''traveled_with'', weight = Some 4,
       source_documents = Some [''EFTA00000001'', ''EFTA00000003'']\<rparr>]"
  by code_simp

section \<open>Claim C9: consolidation is idempotent\<close>

text \<open>
  C9: running \<open>_consolidate_duplicate_relationships\<close> for an entity a second time,
  right after a first run, changes no table and returns 0. This holds for every set
  order \<open>set_list\<close> and every store.
\<close>

theorem consolidate_idempotent:
  "consolidate_duplicate_relationships set_list
      (fst (consolidate_duplicate_relationships set_list d entity_id)) entity_id
   = (fst (consolidate_duplicate_relationships set_list d entity_id), 0)"
proof -
  define R0 where "R0 = relationships d"
  define rels0 where "rels0 = filter (touches entity_id) R0"
  define groups0 where "groups0 = map snd (group_rels rels0)"
  define L where "L = \<Union> (losers_of ` set groups0)"
  define d1 where "d1 = fst (consolidate_duplicate_relationships set_list d entity_id)"
  have d1: "d1 = fst (foldl (consolidate_group set_list) (d, 0) groups0)"
    by (simp add: d1_def consolidate_duplicate_relationships_def Let_def groups0_def rels0_def R0_def)
  have "shaped R0 ({} \<union> L) (relationships d1)"
    unfolding d1 L_def by (rule shaped_groups) (simp add: R0_def shaped_init)
  then obtain F where F: "frame F"
    and rels_d1: "relationships d1 = filter (\<lambda>r. relationship_id r \<notin> L) (map F R0)"
    unfolding shaped_def by auto
  define rels1 where "rels1 = filter (touches entity_id) (relationships d1)"
  have idF: "relationship_id (F r) = relationship_id r" for r using F by (simp add: frame_def)
  have rels1: "rels1 = map F (filter (\<lambda>r. relationship_id r \<notin> L) rels0)"
    unfolding rels1_def rels_d1 rels0_def
    by (simp add: filter_map o_def idF touches_frame [OF F] conj_commute)
  have small: "length g < 2" if "g \<in> set (map snd (group_rels rels1))" for g
  proof -
    from that obtain k where "(k, g) \<in> set (group_rels rels1)" by auto
    then have g: "g = filter (\<lambda>r. group_key r = k) rels1" by (simp add: group_rels_member)
    define G where "G = filter (\<lambda>r. group_key r = k) rels0"
    have "g = map F (filter (\<lambda>r. relationship_id r \<notin> L) G)"
      unfolding g rels1 G_def
      by (simp add: filter_map o_def group_key_frame [OF F] conj_commute)
    then have len: "length g = length (filter (\<lambda>r. relationship_id r \<notin> L) G)" by simp
    have "losers_of G \<subseteq> L" if "2 \<le> length G"
    proof -
      from that have "G \<noteq> []" by auto
      then have "(k, G) \<in> set (group_rels rels0)" by (simp add: group_rels_member G_def)
      then have "G \<in> set groups0" unfolding groups0_def by force
      then show ?thesis unfolding L_def by blast
    qed
    then have "length (filter (\<lambda>r. relationship_id r \<notin> L) G) \<le> 1"
      by (intro survivors_at_most_one) simp
    with len show ?thesis by simp
  qed
  have "consolidate_duplicate_relationships set_list d1 entity_id
        = foldl (consolidate_group set_list) (d1, 0) (map snd (group_rels rels1))"
    by (simp add: consolidate_duplicate_relationships_def Let_def rels1_def)
  also have "\<dots> = (d1, 0)"
    by (rule consolidate_groups_small) (use small in blast)
  finally show ?thesis unfolding d1_def .
qed

text \<open>C9 on the three edges above.\<close>

theorem consolidate_idempotent_witness:
  "snd (consolidate_duplicate_relationships remdups three_edges_db ''PER-00001'') = 2
   \<and> consolidate_duplicate_relationships remdups
        (fst (consolidate_duplicate_relationships remdups three_edges_db ''PER-00001'')) ''PER-00001''
     = (fst (consolidate_duplicate_relationships remdups three_edges_db ''PER-00001''), 0)"
proof -
  have "snd (consolidate_duplicate_relationships remdups three_edges_db ''PER-00001'') = 2"
    by code_simp
  with consolidate_idempotent [of remdups three_edges_db "''PER-00001''"] show ?thesis by simp
qed

section \<open>Claim C10: merging with a missing entity\<close>

text \<open>
  C10: when the survivor id or the absorbed id is not the id of a row of
  \<open>canonical_entities\<close>, \<open>merge_entity_pair\<close> returns the all-zero statistics and the
  store it was given, every table unchanged.
\<close>

theorem merge_entity_pair_missing:
  assumes "survivor \<notin> canonical_id ` set (canonical_entities d)
           \<or> absorbed \<notin> canonical_id ` set (canonical_entities d)"
  shows "merge_entity_pair set_list now1 now2 d survivor absorbed reason mkey dry_run
           = Inr (d, \<lparr>stat_relationships_repointed = 0, stat_resolution_logs_repointed = 0,
                       stat_duplicate_rels_consolidated = 0\<rparr>)"
proof -
  have "find_entity d survivor = None \<or> find_entity d absorbed = None"
    using assms by (auto simp: find_entity_def find_None_iff)
  then show ?thesis
    by (auto simp: merge_entity_pair_def zero_stats_def split: option.splits)
qed

text \<open>C10 on the three-edge store, whose entity table is empty.\<close>

theorem merge_entity_pair_missing_witness:
  "''PER-00002'' \<notin> canonical_id ` set (canonical_entities three_edges_db)
   \<and> merge_entity_pair remdups ''2026-01-01T00:00:00'' ''2026-01-01T00:00:01'' three_edges_db
        ''PER-00001'' ''PER-00002'' ''cleaned_name_match'' ''john smith'' False
      = Inr (three_edges_db, \<lparr>stat_relationships_repointed = 0, stat_resolution_logs_repointed = 0,
                       stat_duplicate_rels_consolidated = 0\<rparr>)"
proof -
  have h: "''PER-00002'' \<notin> canonical_id ` set (canonical_entities three_edges_db)"
    by (simp add: three_edges_db_def)
  from merge_entity_pair_missing [OF disjI2 [OF h]] h show ?thesis by blast
qed

section \<open>Surname disambiguation by graph overlap (\<open>_disambiguate_by_graph\<close>)\<close>

text \<open>
  \<open>_get_neighbors\<close>: the set of ids at the other end of the edges touching \<open>cid\<close>.
\<close>

definition get_neighbors :: "db \<Rightarrow> string \<Rightarrow> string set" where
  "get_neighbors d cid =
     set (concat (map (\<lambda>r. (if source_entity_id r \<noteq> cid then [source_entity_id r] else []) @
                            (if target_entity_id r \<noteq> cid then [target_entity_id r] else []))
                      (filter (touches cid) (relationships d))))"

text \<open>
  The loop state \<open>(best_overlap, best_candidate, second_best)\<close> and one iteration of
  \<open>for cid, name in candidates\<close>. \<open>intersection / union\<close> divides two \<open>int\<close>s into a float.
\<close>

type_synonym graph_state = "real \<times> (string \<times> string) option \<times> real"

definition graph_step :: "db \<Rightarrow> string set \<Rightarrow> graph_state \<Rightarrow> string \<times> string \<Rightarrow> graph_state" where
  "graph_step d absorbed_neighbors st c =
     (case st of (best_overlap, best_candidate, second_best) \<Rightarrow>
        (let cand_neighbors = get_neighbors d (fst c)
         in if cand_neighbors = {} then st
            else if card (absorbed_neighbors \<union> cand_neighbors) = 0 then st
            else (let jac = true_div (card (absorbed_neighbors \<inter> cand_neighbors))
                                     (card (absorbed_neighbors \<union> cand_neighbors))
                  in if jac > best_overlap then (jac, Some c, best_overlap)
                     else if jac > second_best then (best_overlap, best_candidate, jac)
                     else st)))"

text \<open>
  The final test compares floats: \<open>0.05\<close> is the literal read as a float,
  \<open>second_best * 1.5\<close> the rounded product (the literal \<open>1.5\<close> is a float as it stands).
\<close>

definition disambiguate_by_graph ::
  "db \<Rightarrow> string \<Rightarrow> (string \<times> string) list \<Rightarrow> (string \<times> string) option" where
  "disambiguate_by_graph d absorbed_cid candidates =
     (let absorbed_neighbors = get_neighbors d absorbed_cid
      in if absorbed_neighbors = {} then None
         else (case foldl (graph_step d absorbed_neighbors) (0, None, 0) candidates of
                 (best_overlap, best_candidate, second_best) \<Rightarrow>
                   if best_candidate \<noteq> None \<and> best_overlap \<ge> to_double 0.05
                      \<and> best_overlap > float_mul second_best 1.5
                   then best_candidate else None))"

text \<open>
  The words of the specification: the Jaccard similarity of two neighbour sets, the
  highest score of a list of scores and its runner-up (the second entry of the scores in
  descending order; 0 where there is none). \<open>jaccard_double\<close> is the similarity as the
  float the code holds.
\<close>

definition jaccard :: "string set \<Rightarrow> string set \<Rightarrow> real" where
  "jaccard a b = (if card (a \<union> b) = 0 then 0 else real (card (a \<inter> b)) / real (card (a \<union> b)))"

definition jaccard_double :: "string set \<Rightarrow> string set \<Rightarrow> real" where
  "jaccard_double a b = to_double (jaccard a b)"

definition best_score :: "real list \<Rightarrow> real" where
  "best_score scores = (case rev (sort scores) of [] \<Rightarrow> 0 | b # _ \<Rightarrow> b)"

definition runner_up :: "real list \<Rightarrow> real" where
  "runner_up scores = (case rev (sort scores) of b # s # _ \<Rightarrow> s | _ \<Rightarrow> 0)"

section \<open>Facts about the top-two loop\<close>

lemma find_app:
  "find P (xs @ ys) = (case find P xs of None \<Rightarrow> find P ys | Some x \<Rightarrow> Some x)"
  by (induction xs) auto

lemma finite_get_neighbors [simp]: "finite (get_neighbors d cid)"
  by (simp add: get_neighbors_def)

lemma jaccard_nonneg: "0 \<le> jaccard a b"
  by (simp add: jaccard_def)

lemma jaccard_empty: "jaccard a {} = 0"
  by (simp add: jaccard_def)

lemma jaccard_double_nonneg: "0 \<le> jaccard_double a b"
  by (simp add: jaccard_double_def to_double_nonneg jaccard_nonneg)

lemma jaccard_le_one: "jaccard a b \<le> 1"
proof (cases "card (a \<union> b) = 0")
  case True
  then show ?thesis by (simp add: jaccard_def)
next
  case False
  then have "finite (a \<union> b)" by (rule card_ge_0_finite [OF neq0_conv [THEN iffD1]])
  then have "card (a \<inter> b) \<le> card (a \<union> b)" by (intro card_mono) auto
  with False show ?thesis by (simp add: jaccard_def)
qed

lemma jaccard_double_le_one: "jaccard_double a b \<le> 1"
  unfolding jaccard_double_def by (rule to_double_le_one) (rule jaccard_nonneg jaccard_le_one)+

definition top2_step :: "graph_state \<Rightarrow> string \<times> string \<Rightarrow> real \<Rightarrow> graph_state" where
  "top2_step st c j =
     (case st of (b, cand, s) \<Rightarrow>
        if j > b then (j, Some c, b) else if j > s then (b, cand, j) else st)"

lemma graph_step_top2:
  assumes "0 \<le> fst st" "0 \<le> snd (snd st)"
  shows "graph_step d a st c = top2_step st c (jaccard_double a (get_neighbors d (fst c)))"
proof -
  obtain b cand s where st: "st = (b, cand, s)" by (cases st)
  with assms have nn: "0 \<le> b" "0 \<le> s" by simp_all
  show ?thesis
  proof (cases "get_neighbors d (fst c) = {} \<or> card (a \<union> get_neighbors d (fst c)) = 0")
    case True
    then have "jaccard_double a (get_neighbors d (fst c)) = 0"
      by (auto simp: jaccard_double_def jaccard_def)
    with True nn show ?thesis by (auto simp: graph_step_def top2_step_def st Let_def)
  next
    case False
    then show ?thesis
      by (simp add: graph_step_def top2_step_def st jaccard_double_def jaccard_def true_div_def
            Let_def)
  qed
qed

text \<open>The loop invariant: the state holds the two largest scores seen so far.\<close>

definition top2_inv :: "((string \<times> string) \<Rightarrow> real) \<Rightarrow> (string \<times> string) list \<Rightarrow> graph_state \<Rightarrow> bool" where
  "top2_inv score seen st =
     (case st of (b, cand, s) \<Rightarrow>
        0 \<le> s \<and> s \<le> b
        \<and> (\<exists>rest. mset (map score seen) + {#0, 0#} = {#b, s#} + mset rest \<and> (\<forall>x \<in> set rest. x \<le> s))
        \<and> cand = (if 0 < b then find (\<lambda>c. score c = b) seen else None))"

lemma top2_inv_init: "top2_inv score [] (0, None, 0)"
proof -
  have "\<exists>rest. mset (map score []) + {#0, 0#} = {#0, 0::real#} + mset rest
               \<and> (\<forall>x \<in> set rest. x \<le> 0)"
    by (rule exI [of _ "[]"]) simp
  then show ?thesis unfolding top2_inv_def by simp
qed

lemma top2_inv_step:
  assumes inv: "top2_inv score seen st" and j: "0 \<le> score c"
  shows "top2_inv score (seen @ [c]) (top2_step st c (score c))"
proof -
  obtain b cand s where st: "st = (b, cand, s)" by (cases st)
  from inv obtain rest where ord: "0 \<le> s" "s \<le> b"
    and ms: "mset (map score seen) + {#0, 0#} = {#b, s#} + mset rest"
    and rest: "\<forall>x \<in> set rest. x \<le> s"
    and cand: "cand = (if 0 < b then find (\<lambda>c. score c = b) seen else None)"
    unfolding top2_inv_def st by auto
  have bound: "score x \<le> b" if "x \<in> set seen" for x
  proof -
    from that have "score x \<in># mset (map score seen) + {#0, 0#}" by simp
    then have "score x \<in># {#b, s#} + mset rest" unfolding ms .
    then have "score x = b \<or> score x = s \<or> score x \<in> set rest" by auto
    with ord rest show ?thesis by auto
  qed
  have attained: "\<exists>x \<in> set seen. score x = b" if "0 < b"
  proof -
    have "b \<in># {#b, s#} + mset rest" by simp
    then have "b \<in># mset (map score seen) + {#0, 0#}" unfolding ms .
    with that show ?thesis by auto
  qed
  let ?j = "score c"
  consider (new_best) "b < ?j" | (new_second) "?j \<le> b" "s < ?j" | (neither) "?j \<le> b" "?j \<le> s"
    by linarith
  then show ?thesis
  proof cases
    case new_best
    have "mset (map score (seen @ [c])) + {#0, 0#} = {#?j, b#} + mset (s # rest)"
      using ms by (simp add: ac_simps)
    moreover have "\<forall>x \<in> set (s # rest). x \<le> b" using ord rest by auto
    moreover have "find (\<lambda>x. score x = ?j) (seen @ [c]) = Some c"
    proof -
      have "find (\<lambda>x. score x = ?j) seen = None"
        using bound new_best by (force simp: find_None_iff)
      then show ?thesis by (simp add: find_app)
    qed
    moreover have "0 < ?j" using new_best ord by linarith
    ultimately show ?thesis
      using new_best ord unfolding top2_inv_def top2_step_def st
      by (simp del: mset.simps set_simps) blast
  next
    case new_second
    have "mset (map score (seen @ [c])) + {#0, 0#} = {#b, ?j#} + mset (s # rest)"
      using ms by (simp add: ac_simps)
    moreover have "\<forall>x \<in> set (s # rest). x \<le> ?j" using new_second rest by auto
    moreover have "find (\<lambda>x. score x = b) (seen @ [c]) = find (\<lambda>x. score x = b) seen" if "0 < b"
    proof -
      from attained [OF that] have "find (\<lambda>x. score x = b) seen \<noteq> None"
        by (auto simp: find_None_iff)
      then show ?thesis by (auto simp: find_app)
    qed
    ultimately show ?thesis
      using new_second ord j cand unfolding top2_inv_def top2_step_def st
      by (simp del: mset.simps set_simps) blast
  next
    case neither
    have "mset (map score (seen @ [c])) + {#0, 0#} = {#b, s#} + mset (?j # rest)"
      using ms by (simp add: ac_simps)
    moreover have "\<forall>x \<in> set (?j # rest). x \<le> s" using neither rest by auto
    moreover have "find (\<lambda>x. score x = b) (seen @ [c]) = find (\<lambda>x. score x = b) seen" if "0 < b"
    proof -
      from attained [OF that] have "find (\<lambda>x. score x = b) seen \<noteq> None"
        by (auto simp: find_None_iff)
      then show ?thesis by (auto simp: find_app)
    qed
    ultimately show ?thesis
      using neither ord cand unfolding top2_inv_def top2_step_def st
      by (simp del: mset.simps set_simps) blast
  qed
qed

lemma top2_inv_nonneg: "top2_inv score seen st \<Longrightarrow> 0 \<le> fst st \<and> 0 \<le> snd (snd st)"
  by (cases st) (auto simp: top2_inv_def)

lemma graph_loop_inv:
  assumes "top2_inv (\<lambda>c. jaccard_double a (get_neighbors d (fst c))) seen st"
  shows "top2_inv (\<lambda>c. jaccard_double a (get_neighbors d (fst c))) (seen @ cs)
           (foldl (graph_step d a) st cs)"
  using assms
proof (induction cs arbitrary: seen st)
  case Nil
  then show ?case by simp
next
  case (Cons c cs)
  let ?score = "\<lambda>c. jaccard_double a (get_neighbors d (fst c))"
  from Cons.prems have nn: "0 \<le> fst st" "0 \<le> snd (snd st)"
    using top2_inv_nonneg by blast+
  have "top2_inv ?score (seen @ [c]) (top2_step st c (?score c))"
    using Cons.prems by (rule top2_inv_step) (rule jaccard_double_nonneg)
  then have "top2_inv ?score (seen @ [c]) (graph_step d a st c)"
    by (simp add: graph_step_top2 [OF nn])
  from Cons.IH [OF this] show ?case by simp
qed

lemma top2_sorted:
  assumes nonneg: "\<forall>x \<in> set xs. (0::real) \<le> x"
      and ms: "mset xs + {#0, 0#} = {#b, s#} + mset rest"
      and rest: "\<forall>x \<in> set rest. x \<le> s" and ord: "s \<le> b"
  shows "best_score xs = b \<and> runner_up xs = s"
proof -
  have 1: "sort (xs @ [0, 0]) = sort rest @ [s, b]"
  proof (rule properties_for_sort)
    show "mset (sort rest @ [s, b]) = mset (xs @ [0, 0])" using ms by (simp add: ac_simps)
    show "sorted (sort rest @ [s, b])" using rest ord by (auto simp: sorted_append)
  qed
  have 2: "sort (xs @ [0, 0]) = 0 # 0 # sort xs"
  proof (rule properties_for_sort)
    show "mset (0 # 0 # sort xs) = mset (xs @ [0, 0])" by simp
    show "sorted (0 # 0 # sort xs)" using nonneg by auto
  qed
  have "rev (sort (xs @ [0, 0])) = rev (sort rest @ [s, b])" by (simp only: 1)
  then have eq: "rev (sort xs) @ [0, 0] = b # s # rev (sort rest)" by (simp add: 2)
  show ?thesis
  proof (cases "rev (sort xs)")
    case Nil
    with eq show ?thesis by (simp add: best_score_def runner_up_def)
  next
    case outer: (Cons x ys)
    show ?thesis
    proof (cases ys)
      case Nil
      with eq outer show ?thesis by (simp add: best_score_def runner_up_def)
    next
      case (Cons y zs)
      with eq outer show ?thesis by (simp add: best_score_def runner_up_def)
    qed
  qed
qed

section \<open>Claim C5: the acceptance rule of the graph disambiguation\<close>

text \<open>
  C5 states that the best candidate is accepted if and only if its score is at least
  0.05 and at least 1.5 times the runner-up's. The code compares with
  \<open>best_overlap > second_best * 1.5\<close>, strictly. In the store below the surname-only
  entity PER-00010 has the neighbours 101, 102, 103; PER-00001 has 101..104 (score 3/4)
  and PER-00002 has 101, 102, 105 (score 1/2). The best score is exactly 1.5 times the
  runner-up's, so C5 accepts PER-00001, and the code returns no candidate. 3/4, 1/2 and
  their product with 1.5 are floats, so nothing is rounded on the way.
\<close>

definition edge :: "nat \<Rightarrow> string \<Rightarrow> string \<Rightarrow> relationship" where
  "edge n a b = \<lparr>relationship_id = n, source_entity_id = a, target_entity_id = b,
                 relationship_type = ''associated_with'', weight = Some 1, source_documents = None\<rparr>"

definition edwards_db :: db where
  "edwards_db = \<lparr>canonical_entities = [],
     relationships =
       [edge 1 ''PER-00010'' ''PER-00101'', edge 2 ''PER-00010'' ''PER-00102'',
        edge 3 ''PER-00103'' ''PER-00010'',
        edge 4 ''PER-00001'' ''PER-00101'', edge 5 ''PER-00001'' ''PER-00102'',
        edge 6 ''PER-00001'' ''PER-00103'', edge 7 ''PER-00104'' ''PER-00001'',
        edge 8 ''PER-00002'' ''PER-00101'', edge 9 ''PER-00102'' ''PER-00002'',
        edge 10 ''PER-00002'' ''PER-00105'',
        edge 11 ''PER-00003'' ''PER-00101'', edge 12 ''PER-00003'' ''PER-00105'',
        edge 13 ''PER-00106'' ''PER-00003''],
     relationship_sources = [], entity_resolution_log = [], entity_merges = []\<rparr>"

text \<open>
  A second store, for a tie that is not a float: PER-00020 has the neighbours 201..209,
  PER-00021 has 201..210 (score 9/10) and PER-00022 has 201..206 and 211 (score 6/10).
\<close>

definition maxwell_db :: db where
  "maxwell_db = \<lparr>canonical_entities = [],
     relationships =
       [edge 1 ''PER-00020'' ''PER-00201'', edge 2 ''PER-00020'' ''PER-00202'',
        edge 3 ''PER-00020'' ''PER-00203'', edge 4 ''PER-00020'' ''PER-00204'',
        edge 5 ''PER-00020'' ''PER-00205'', edge 6 ''PER-00020'' ''PER-00206'',
        edge 7 ''PER-00207'' ''PER-00020'', edge 8 ''PER-00208'' ''PER-00020'',
        edge 9 ''PER-00209'' ''PER-00020'',
        edge 10 ''PER-00021'' ''PER-00201'', edge 11 ''PER-00021'' ''PER-00202'',
        edge 12 ''PER-00021'' ''PER-00203'', edge 13 ''PER-00021'' ''PER-00204'',
        edge 14 ''PER-00021'' ''PER-00205'', edge 15 ''PER-00021'' ''PER-00206'',
        edge 16 ''PER-00021'' ''PER-00207'', edge 17 ''PER-00021'' ''PER-00208'',
        edge 18 ''PER-00209'' ''PER-00021'', edge 19 ''PER-00210'' ''PER-00021'',
        edge 20 ''PER-00022'' ''PER-00201'', edge 21 ''PER-00022'' ''PER-00202'',
        edge 22 ''PER-00022'' ''PER-00203'', edge 23 ''PER-00022'' ''PER-00204'',
        edge 24 ''PER-00205'' ''PER-00022'', edge 25 ''PER-00206'' ''PER-00022'',
        edge 26 ''PER-00211'' ''PER-00022''],
     relationship_sources = [], entity_resolution_log = [], entity_merges = []\<rparr>"

theorem disambiguate_by_graph_boundary:
  "jaccard (get_neighbors edwards_db ''PER-00010'') (get_neighbors edwards_db ''PER-00001'') = 3 / 4
   \<and> jaccard (get_neighbors edwards_db ''PER-00010'') (get_neighbors edwards_db ''PER-00002'') = 1 / 2
   \<and> (0.05 :: real) \<le> 3 / 4 \<and> (1.5 :: real) * (1 / 2) \<le> 3 / 4
   \<and> disambiguate_by_graph edwards_db ''PER-00010''
         [(''PER-00001'', ''Bradley Edwards''), (''PER-00002'', ''John Edwards'')] = None"
proof -
  have 1: "jaccard (get_neighbors edwards_db ''PER-00010'') (get_neighbors edwards_db ''PER-00001'') = 3 / 4"
    by code_simp
  have 2: "jaccard (get_neighbors edwards_db ''PER-00010'') (get_neighbors edwards_db ''PER-00002'') = 1 / 2"
    by code_simp
  have 3: "disambiguate_by_graph edwards_db ''PER-00010''
         [(''PER-00001'', ''Bradley Edwards''), (''PER-00002'', ''John Edwards'')] = None"
    by code_simp
  show ?thesis using 1 2 3 by simp
qed

text \<open>
  The strict comparison is one of floats, and that matters at a tie: 9/10 is exactly
  1.5 times 6/10, but neither is a float. The quotients are held as
  \<open>0.90000000000000002220\<dots>\<close> and \<open>0.59999999999999997779\<dots>\<close>, the product \<open>0.6 * 1.5\<close>
  rounds to \<open>0.8999999999999999\<close>, the float just below the one for 9/10, and the code
  accepts PER-00021. So "strictly more than 1.5 times the runner-up" describes the code
  only when the scores and the product are read as the floats they are.
\<close>

lemma disambiguate_by_graph_rounded_tie:
  "jaccard (get_neighbors maxwell_db ''PER-00020'') (get_neighbors maxwell_db ''PER-00021'') = 9 / 10"
  "jaccard (get_neighbors maxwell_db ''PER-00020'') (get_neighbors maxwell_db ''PER-00022'') = 6 / 10"
  "(9 / 10 :: real) = 6 / 10 * 1.5"
  "to_double (9 / 10) = 8106479329266893 / 2 ^ 53"
  "to_double (6 / 10) = 5404319552844595 / 2 ^ 53"
  "float_mul (to_double (6 / 10)) 1.5 = 8106479329266892 / 2 ^ 53"
  "disambiguate_by_graph maxwell_db ''PER-00020''
     [(''PER-00021'', ''Ghislaine Maxwell''), (''PER-00022'', ''Robert Maxwell'')]
   = Some (''PER-00021'', ''Ghislaine Maxwell'')"
  by code_simp+

text \<open>
  C5 as amended. Every score is the Jaccard quotient as a float, \<open>jaccard_double\<close>.
  \<open>_disambiguate_by_graph\<close> returns the first candidate with the highest score if that
  score is at least the float \<open>0.05\<close> and strictly greater than the float product of the
  runner-up's score and \<open>1.5\<close>, and no candidate otherwise.
\<close>

theorem disambiguate_by_graph_rule:
  "disambiguate_by_graph d absorbed_cid candidates =
     (let scores = map (\<lambda>c. jaccard_double (get_neighbors d absorbed_cid)
                                           (get_neighbors d (fst c)))
                       candidates
      in if to_double 0.05 \<le> best_score scores
            \<and> float_mul (runner_up scores) 1.5 < best_score scores
         then find (\<lambda>c. jaccard_double (get_neighbors d absorbed_cid) (get_neighbors d (fst c))
                          = best_score scores) candidates
         else None)"
proof -
  define a where "a = get_neighbors d absorbed_cid"
  define score where "score = (\<lambda>c :: string \<times> string. jaccard_double a (get_neighbors d (fst c)))"
  define scores where "scores = map score candidates"
  have "to_double 0.05 = 3602879701896397 / 72057594037927936" by code_simp
  then have low: "0 < to_double 0.05" by simp
  obtain b cand s where loop: "foldl (graph_step d a) (0, None, 0) candidates = (b, cand, s)"
    by (cases "foldl (graph_step d a) (0, None, 0) candidates")
  have "top2_inv score ([] @ candidates) (foldl (graph_step d a) (0, None, 0) candidates)"
    unfolding score_def by (rule graph_loop_inv) (rule top2_inv_init)
  then obtain rest where ord: "0 \<le> s" "s \<le> b"
    and ms: "mset scores + {#0, 0#} = {#b, s#} + mset rest"
    and rest: "\<forall>x \<in> set rest. x \<le> s"
    and cand: "cand = (if 0 < b then find (\<lambda>c. score c = b) candidates else None)"
    unfolding top2_inv_def loop scores_def by auto
  have "\<forall>x \<in> set scores. 0 \<le> x" by (auto simp: scores_def score_def jaccard_double_nonneg)
  then have top: "best_score scores = b" "runner_up scores = s"
    using top2_sorted [OF _ ms rest ord(2)] by simp_all
  have found: "find (\<lambda>c. score c = b) candidates \<noteq> None" if "0 < b"
  proof -
    have "b \<in># {#b, s#} + mset rest" by simp
    then have "b \<in># mset scores + {#0, 0#}" unfolding ms .
    with that have "b \<in> set scores" by auto
    then show ?thesis by (auto simp: scores_def find_None_iff)
  qed
  have rhs: "(let scores = map score candidates
      in if to_double 0.05 \<le> best_score scores
            \<and> float_mul (runner_up scores) 1.5 < best_score scores
         then find (\<lambda>c. score c = best_score scores) candidates else None)
     = (if to_double 0.05 \<le> b \<and> float_mul s 1.5 < b
        then find (\<lambda>c. score c = b) candidates else None)"
    using top by (simp add: scores_def [symmetric])
  have lhs: "disambiguate_by_graph d absorbed_cid candidates
     = (if to_double 0.05 \<le> b \<and> float_mul s 1.5 < b
        then find (\<lambda>c. score c = b) candidates else None)"
  proof (cases "a = {}")
    case True
    then have "score c = 0" for c by (simp add: score_def jaccard_double_def jaccard_def)
    then have "\<forall>x \<in> set scores. x \<le> 0" by (auto simp: scores_def)
    moreover have "b \<in># mset scores + {#0, 0#}" unfolding ms by simp
    ultimately have "b \<le> 0" by auto
    with low have "\<not> to_double 0.05 \<le> b" by linarith
    with True show ?thesis
      by (simp add: disambiguate_by_graph_def a_def [symmetric])
  next
    case False
    show ?thesis
    proof (cases "to_double 0.05 \<le> b \<and> float_mul s 1.5 < b")
      case True
      with low have "0 < b" by linarith
      with found cand have "cand \<noteq> None" "cand = find (\<lambda>c. score c = b) candidates" by simp_all
      with True False show ?thesis
        by (simp add: disambiguate_by_graph_def a_def [symmetric] loop)
    next
      case no: False
      with False show ?thesis
        by (auto simp: disambiguate_by_graph_def a_def [symmetric] loop)
    qed
  qed
  have "disambiguate_by_graph d absorbed_cid candidates =
     (let scores = map score candidates
      in if to_double 0.05 \<le> best_score scores
            \<and> float_mul (runner_up scores) 1.5 < best_score scores
         then find (\<lambda>c. score c = best_score scores) candidates else None)"
    by (simp only: lhs rhs)
  then show ?thesis unfolding score_def a_def .
qed

text \<open>
  The amended rule at work: against PER-00003 (neighbours 101, 105, 106; score 1/5)
  the score 3/4 of PER-00001 is a clear win.
\<close>

theorem disambiguate_by_graph_rule_witness:
  "disambiguate_by_graph edwards_db ''PER-00010''
     [(''PER-00003'', ''Edwards John''), (''PER-00001'', ''Bradley Edwards'')]
   = Some (''PER-00001'', ''Bradley Edwards'')"
proof -
  have "(let scores = map (\<lambda>c. jaccard_double (get_neighbors edwards_db ''PER-00010'')
                                   (get_neighbors edwards_db (fst c)))
                       [(''PER-00003'', ''Edwards John''), (''PER-00001'', ''Bradley Edwards'')]
      in if to_double 0.05 \<le> best_score scores
            \<and> float_mul (runner_up scores) 1.5 < best_score scores
         then find (\<lambda>c. jaccard_double (get_neighbors edwards_db ''PER-00010'')
                                (get_neighbors edwards_db (fst c))
                          = best_score scores)
                [(''PER-00003'', ''Edwards John''), (''PER-00001'', ''Bradley Edwards'')]
         else None) = Some (''PER-00001'', ''Bradley Edwards'')"
    by code_simp
  with disambiguate_by_graph_rule [of edwards_db "''PER-00010''"
      "[(''PER-00003'', ''Edwards John''), (''PER-00001'', ''Bradley Edwards'')]"]
  show ?thesis by simp
qed

section \<open>Character classes and regular expressions\<close>

text \<open>
  \<open>str.isalpha\<close>, the regex classes \<open>\d\<close> and \<open>\w\<close> on the code points 0..255: the
  letters are A..Z, a..z, U+00AA, U+00B5, U+00BA and U+00C0..U+00FF without the two
  arithmetic signs; \<open>\d\<close> is 0..9; \<open>\w\<close> is what \<open>str.isalnum\<close> accepts (letters,
  digits, the superscript digits and the fractions) and the underscore.
\<close>

definition isalpha :: "char \<Rightarrow> bool" where
  "isalpha c = (let n = (of_char c :: nat) in
     (65 \<le> n \<and> n \<le> 90) \<or> (97 \<le> n \<and> n \<le> 122) \<or> n = 170 \<or> n = 181 \<or> n = 186
     \<or> (192 \<le> n \<and> n \<le> 214) \<or> (216 \<le> n \<and> n \<le> 246) \<or> 248 \<le> n)"

definition isdigit :: "char \<Rightarrow> bool" where
  "isdigit c = (let n = (of_char c :: nat) in 48 \<le> n \<and> n \<le> 57)"

definition isword :: "char \<Rightarrow> bool" where
  "isword c = (let n = (of_char c :: nat) in
     isalpha c \<or> isdigit c \<or> n = 95 \<or> n = 178 \<or> n = 179 \<or> n = 185
     \<or> n = 188 \<or> n = 189 \<or> n = 190)"

text \<open>
  The patterns of the two modules as terms, and a backtracking matcher for them.
  A position is the character before it (none at the start) and the rest of the text;
  \<open>rx_m n ic r k st\<close> holds when \<open>r\<close> matches from \<open>st\<close> and the continuation \<open>k\<close>
  accepts where the match ends. \<open>ic\<close> is \<open>re.IGNORECASE\<close>. An iteration of \<open>Star\<close>
  must consume a character, and \<open>n\<close> bounds the iterations; \<open>re_search\<close> and
  \<open>re_match\<close> start with more than the length of the text. \<open>Eol\<close> is \<open>$\<close>: the end
  of the text or just before a final newline.
\<close>

datatype rx =
    Eps
  | Lit char
  | Cls "char \<Rightarrow> bool"
  | Seq rx rx
  | Alt rx rx
  | Star rx
  | Bol
  | Eol
  | WordB

type_synonym rx_pos = "char option \<times> string"

definition at_word_boundary :: "rx_pos \<Rightarrow> bool" where
  "at_word_boundary st =
     ((case fst st of None \<Rightarrow> False | Some p \<Rightarrow> isword p)
      \<noteq> (case snd st of [] \<Rightarrow> False | x # _ \<Rightarrow> isword x))"

fun rx_m :: "nat \<Rightarrow> bool \<Rightarrow> rx \<Rightarrow> (rx_pos \<Rightarrow> bool) \<Rightarrow> rx_pos \<Rightarrow> bool" where
  "rx_m n ic Eps k st = k st"
| "rx_m n ic (Lit c) k st =
     (case snd st of
        [] \<Rightarrow> False
      | x # xs \<Rightarrow> (if ic then lower_char x = lower_char c else x = c) \<and> k (Some x, xs))"
| "rx_m n ic (Cls P) k st =
     (case snd st of [] \<Rightarrow> False | x # xs \<Rightarrow> P x \<and> k (Some x, xs))"
| "rx_m n ic (Seq a b) k st = rx_m n ic a (\<lambda>st'. rx_m n ic b k st') st"
| "rx_m n ic (Alt a b) k st = (rx_m n ic a k st \<or> rx_m n ic b k st)"
| "rx_m 0 ic (Star a) k st = k st"
| "rx_m (Suc n) ic (Star a) k st =
     (rx_m n ic a (\<lambda>st'. length (snd st') < length (snd st) \<and> rx_m n ic (Star a) k st') st
      \<or> k st)"
| "rx_m n ic Bol k st = (fst st = None \<and> k st)"
| "rx_m n ic Eol k st = ((snd st = [] \<or> snd st = [CHR 0x0A]) \<and> k st)"
| "rx_m n ic WordB k st = (at_word_boundary st \<and> k st)"

fun rx_search_from :: "nat \<Rightarrow> bool \<Rightarrow> rx \<Rightarrow> char option \<Rightarrow> string \<Rightarrow> bool" where
  "rx_search_from n ic r p [] = rx_m n ic r (\<lambda>_. True) (p, [])"
| "rx_search_from n ic r p (x # xs) =
     (rx_m n ic r (\<lambda>_. True) (p, x # xs) \<or> rx_search_from n ic r (Some x) xs)"

definition re_search :: "bool \<Rightarrow> rx \<Rightarrow> string \<Rightarrow> bool" where
  "re_search ic r s = rx_search_from (Suc (length s)) ic r None s"

definition re_match :: "bool \<Rightarrow> rx \<Rightarrow> string \<Rightarrow> bool" where
  "re_match ic r s = rx_m (Suc (length s)) ic r (\<lambda>_. True) (None, s)"

text \<open>Shorthands: a sequence, a literal string, \<open>(a|b|c)\<close>, \<open>r?\<close> and \<open>r+\<close>.\<close>

definition rx_seq :: "rx list \<Rightarrow> rx" where
  "rx_seq rs = foldr Seq rs Eps"

definition rx_str :: "string \<Rightarrow> rx" where
  "rx_str s = rx_seq (map Lit s)"

definition rx_alt :: "string list \<Rightarrow> rx" where
  "rx_alt ss = foldr (\<lambda>s r. Alt (rx_str s) r) (butlast ss) (rx_str (last ss))"

definition rx_opt :: "rx \<Rightarrow> rx" where
  "rx_opt r = Alt r Eps"

definition rx_plus :: "rx \<Rightarrow> rx" where
  "rx_plus r = Seq r (Star r)"

section \<open>The noise classifier (resolve\_persons.py)\<close>

text \<open>
  \<^verbatim>\<open>(?:Jane|John)\s+Doe\s*[#]?\d|Employee[- ]?\d|Detective\s*\d|Victim\s*[#]?\d\<close>
\<close>

definition NUMBERED_PATTERN :: rx where
  "NUMBERED_PATTERN =
     Alt (rx_seq [rx_alt [''Jane'', ''John''], rx_plus (Cls isspace), rx_str ''Doe'',
                  Star (Cls isspace), rx_opt (Lit (CHR ''#'')), Cls isdigit])
    (Alt (rx_seq [rx_str ''Employee'', rx_opt (Cls (\<lambda>c. c = CHR ''-'' \<or> c = CHR '' '')),
                  Cls isdigit])
    (Alt (rx_seq [rx_str ''Detective'', Star (Cls isspace), Cls isdigit])
         (rx_seq [rx_str ''Victim'', Star (Cls isspace), rx_opt (Lit (CHR ''#'')), Cls isdigit])))"

definition NOISE_SUBSTRINGS :: "string list" where
  "NOISE_SUBSTRINGS =
     [''unknown person'', ''unknown company'', ''unknown organization'',
      ''unidentified'', ''unnamed'', ''redacted'', ''sealed'',
      ''various '', ''multiple '', ''participants'', ''attendees'',
      ''author'', ''narrator'', ''reporter'',
      ''plaintiff'', ''defendant'', ''witness'', ''victim'', ''employee'',
      ''the government'', ''the court'', ''prosecution'', ''defense counsel'',
      ''security clearance'', ''technology industry'']"

text \<open>
  \<^verbatim>\<open>^unknown(\s+(person|individual|man|woman|company|organization))?$\<close>,
  \<^verbatim>\<open>^(unidentified|unnamed)\b\<close>, \<^verbatim>\<open>^(various|multiple)\b\<close>,
  \<^verbatim>\<open>^(employee|victim|witness)\s*[#]?\d+\b\<close>,
  \<^verbatim>\<open>^(john|jane)\s+doe\s*[#]?\d+\b\<close>, \<^verbatim>\<open>^\(b\)\(\d+\)\<close>
\<close>

definition NOISE_REGEX :: "rx list" where
  "NOISE_REGEX =
     [rx_seq [Bol, rx_str ''unknown'',
              rx_opt (rx_seq [rx_plus (Cls isspace),
                              rx_alt [''person'', ''individual'', ''man'', ''woman'', ''company'',
                                      ''organization'']]),
              Eol],
      rx_seq [Bol, rx_alt [''unidentified'', ''unnamed''], WordB],
      rx_seq [Bol, rx_alt [''various'', ''multiple''], WordB],
      rx_seq [Bol, rx_alt [''employee'', ''victim'', ''witness''], Star (Cls isspace),
              rx_opt (Lit (CHR ''#'')), rx_plus (Cls isdigit), WordB],
      rx_seq [Bol, rx_alt [''john'', ''jane''], rx_plus (Cls isspace), rx_str ''doe'',
              Star (Cls isspace), rx_opt (Lit (CHR ''#'')), rx_plus (Cls isdigit), WordB],
      rx_seq [Bol, rx_str ''(b)('', rx_plus (Cls isdigit), Lit (CHR '')'')]]"

text \<open>
  \<open>looks_like_non_entity\<close>. The last test compares \<open>alpha / len(s)\<close> with 0.35; the
  string has at most 90 characters there, and for such lengths the floating-point
  comparison agrees with the exact one.
\<close>

definition looks_like_non_entity :: "string \<Rightarrow> bool" where
  "looks_like_non_entity name =
     (if name = [] then True
      else (let s = strip name in
        if s = [] then True
        else if CHR 0x0A \<in> set s \<or> CHR 0x09 \<in> set s then True
        else if contains ''http://'' (lower s) \<or> contains ''https://'' (lower s) then True
        else if CHR ''@'' \<in> set s \<and> CHR ''.'' \<in> set s then True
        else if length s > 90 \<or> length (split_ws s) > 7 then True
        else (let alpha = length (filter isalpha s) in
          if alpha = 0 then True
          else if length s \<ge> 25 \<and> real alpha / real (length s) < 0.35 then True
          else False)))"

definition is_noise_entity_name :: "string \<Rightarrow> bool" where
  "is_noise_entity_name name =
     (if looks_like_non_entity name then True
      else (let lowered = strip (lower (normalize_name name)) in
        if lowered = [] then True
        else if list_ex (\<lambda>sub. contains sub lowered) NOISE_SUBSTRINGS then True
        else list_ex (\<lambda>r. re_search True r lowered) NOISE_REGEX))"

definition is_numbered_reference :: "string \<Rightarrow> bool" where
  "is_numbered_reference name = re_search True NUMBERED_PATTERN name"


section \<open>The resolver (resolve\_persons.py, \<open>EntityResolver\<close>)\<close>

text \<open>
  The registry is the list of entity rows, keyed by \<open>canonical_id\<close>. \<open>exact_lookup\<close> is
  the dictionary from lower-cased name forms to ids (a later assignment overwrites an
  earlier one) and \<open>all_names\<close> the list of (name, id) pairs; \<open>_name_strings\<close> is its
  first column.
\<close>

record resolver =
  registry :: "entity list"
  fuzzy_threshold :: real
  exact_lookup :: "string \<rightharpoonup> string"
  all_names :: "(string \<times> string) list"

definition index_name :: "resolver \<Rightarrow> string \<Rightarrow> string \<Rightarrow> resolver" where
  "index_name res name cid =
     (let res1 = res\<lparr>exact_lookup := (exact_lookup res)(lower name \<mapsto> cid),
                     all_names := all_names res @ [(name, cid)]\<rparr>;
          norm = lower (normalize_name name);
          res2 = (if norm \<noteq> [] \<and> norm \<noteq> lower name
                  then res1\<lparr>exact_lookup := (exact_lookup res1)(norm \<mapsto> cid),
                            all_names := all_names res1 @ [(normalize_name name, cid)]\<rparr>
                  else res1);
          short = lower (get_short_name name)
      in if short \<noteq> [] \<and> short \<noteq> lower name \<and> short \<noteq> norm
         then res2\<lparr>exact_lookup := (exact_lookup res2)(short \<mapsto> cid),
                   all_names := all_names res2 @ [(get_short_name name, cid)]\<rparr>
         else res2)"

definition index_entity :: "resolver \<Rightarrow> entity \<Rightarrow> resolver" where
  "index_entity res e =
     foldl (\<lambda>r alias. if alias \<noteq> [] then index_name r alias (canonical_id e) else r)
           (index_name res (canonical_name e) (canonical_id e))
           (aliases e)"

definition EntityResolver :: "entity list \<Rightarrow> real \<Rightarrow> resolver" where
  "EntityResolver reg threshold =
     foldl index_entity
       \<lparr>registry = reg, fuzzy_threshold = threshold, exact_lookup = Map.empty, all_names = []\<rparr>
       reg"

definition name_strings :: "resolver \<Rightarrow> string list" where
  "name_strings res = map fst (all_names res)"

text \<open>
  \<open>rapidfuzz.process.extractOne(query, choices, scorer, score_cutoff)\<close> belongs to a
  library: it returns the choice with the highest score that reaches the cutoff, the
  first of them on a tie, with its score and index, or \<open>None\<close>. The scorer is a
  parameter of the model.
\<close>

fun extract_loop ::
  "(string \<Rightarrow> string \<Rightarrow> real) \<Rightarrow> string \<Rightarrow> real \<Rightarrow> (string \<times> real \<times> nat) option \<Rightarrow> nat
     \<Rightarrow> string list \<Rightarrow> (string \<times> real \<times> nat) option" where
  "extract_loop scorer query cutoff best i [] = best"
| "extract_loop scorer query cutoff best i (choice # choices) =
     (let score = scorer query choice
      in if score \<ge> cutoff \<and> (case best of None \<Rightarrow> True | Some (_, b, _) \<Rightarrow> score > b)
         then extract_loop scorer query cutoff (Some (choice, score, i)) (Suc i) choices
         else extract_loop scorer query cutoff best (Suc i) choices)"

definition extractOne ::
  "(string \<Rightarrow> string \<Rightarrow> real) \<Rightarrow> string \<Rightarrow> string list \<Rightarrow> real \<Rightarrow> (string \<times> real \<times> nat) option" where
  "extractOne scorer query choices score_cutoff = extract_loop scorer query score_cutoff None 0 choices"

text \<open>
  \<open>resolve\<close> returns \<open>(canonical_id, match_method, confidence)\<close>. The exact tier walks
  the three forms in order; \<open>self.registry[cid]\<close> raises \<open>KeyError\<close> for an id the
  registry lacks.
\<close>

type_synonym resolution = "string option \<times> string \<times> real"

fun exact_tier :: "resolver \<Rightarrow> string list \<Rightarrow> (py_error + resolution) option" where
  "exact_tier res [] = None"
| "exact_tier res (form # forms) =
     (case exact_lookup res form of
        None \<Rightarrow> exact_tier res forms
      | Some cid \<Rightarrow>
          (case find (\<lambda>e. canonical_id e = cid) (registry res) of
             None \<Rightarrow> Some (Inl KeyError)
           | Some e \<Rightarrow>
               if form = lower (canonical_name e) then Some (Inr (Some cid, ''exact'', 1))
               else Some (Inr (Some cid, ''alias'', 0.95))))"

definition fuzzy_tier :: "(string \<Rightarrow> string \<Rightarrow> real) \<Rightarrow> resolver \<Rightarrow> string \<Rightarrow> py_error + resolution" where
  "fuzzy_tier scorer res normalized =
     (case extractOne scorer normalized (name_strings res) (fuzzy_threshold res) of
        Some (matched_name, score, idx) \<Rightarrow>
          if length normalized \<le> 10 \<and> score < 95 then Inr (None, ''no_match'', 0)
          else Inr (Some (snd (all_names res ! idx)), ''fuzzy'', score / 100)
      | None \<Rightarrow> Inr (None, ''no_match'', 0))"

definition resolve :: "(string \<Rightarrow> string \<Rightarrow> real) \<Rightarrow> resolver \<Rightarrow> string \<Rightarrow> py_error + resolution" where
  "resolve scorer res source_name =
     (if source_name = [] \<or> strip source_name = [] then Inr (None, ''no_match'', 0)
      else (let cleaned = strip source_name in
        if is_noise_entity_name cleaned then Inr (None, ''noise'', 0)
        else (case exact_tier res [lower cleaned, lower (normalize_name cleaned),
                                   lower (get_short_name cleaned)] of
                Some outcome \<Rightarrow> outcome
              | None \<Rightarrow>
                  if is_numbered_reference cleaned then Inr (None, ''no_match'', 0)
                  else if name_strings res = [] then Inr (None, ''no_match'', 0)
                  else fuzzy_tier scorer res (normalize_name cleaned))))"

text \<open>
  The scorer the resolver passes, \<open>rapidfuzz.fuzz.token_sort_ratio\<close>, as its
  documentation defines it: the tokens of both strings sorted and joined by a space,
  then the normalized Indel similarity \<open>100 * 2 * LCS / (len1 + len2)\<close>. It is used
  for the concrete examples only.
\<close>

fun lcs :: "string \<Rightarrow> string \<Rightarrow> nat" where
  "lcs [] ys = 0"
| "lcs (x # xs) [] = 0"
| "lcs (x # xs) (y # ys) =
     (if x = y then Suc (lcs xs ys) else max (lcs xs (y # ys)) (lcs (x # xs) ys))"

definition ratio :: "string \<Rightarrow> string \<Rightarrow> real" where
  "ratio a b =
     (if length a + length b = 0 then 100
      else 100 * real (2 * lcs a b) / real (length a + length b))"

definition token_sort_ratio :: "string \<Rightarrow> string \<Rightarrow> real" where
  "token_sort_ratio a b = ratio (join '' '' (sort (split_ws a))) (join '' '' (sort (split_ws b)))"

text \<open>A person row with no metadata, for the examples.\<close>

definition person :: "string \<Rightarrow> string \<Rightarrow> string list \<Rightarrow> entity" where
  "person cid name als =
     \<lparr>canonical_id = cid, entity_type = ''person'', canonical_name = name, aliases = als,
      metadata = [], last_updated = []\<rparr>"

section \<open>Facts about trimming and the resolver\<close>

lemma last_dropWhile: "dropWhile P xs \<noteq> [] \<Longrightarrow> last (dropWhile P xs) = last xs"
  by (induction xs) (auto split: if_splits)

lemma strip_ends:
  assumes "strip s \<noteq> []"
  shows "\<not> isspace (hd (strip s)) \<and> \<not> isspace (last (strip s))"
proof -
  define t where "t = dropWhile isspace s"
  define u where "u = dropWhile isspace (rev t)"
  have su: "strip s = rev u" by (simp add: strip_def t_def u_def)
  with assms have u: "u \<noteq> []" by simp
  then have rt: "rev t \<noteq> []" unfolding u_def by auto
  then have t: "t \<noteq> []" by simp
  have "\<not> isspace (hd u)" using u unfolding u_def by (rule hd_dropWhile)
  then have 1: "\<not> isspace (last (strip s))" using u by (simp add: su last_rev)
  have "last u = last (rev t)" using u unfolding u_def by (rule last_dropWhile)
  also have "\<dots> = hd t" using t by (simp add: last_rev)
  finally have "hd (strip s) = hd t" using u by (simp add: su hd_rev)
  moreover have "\<not> isspace (hd t)" using t unfolding t_def by (rule hd_dropWhile)
  ultimately show ?thesis using 1 by simp
qed

lemma strip_strip: "strip (strip s) = strip s"
  by (rule strip_id) (use strip_ends [of s] in blast)

lemma strip_Nil [simp]: "strip [] = []"
  by (simp add: strip_def)

lemma normalize_blank: "collapse_ws (sub_parens (reorder_comma (strip_suffixes []))) = []"
  by code_simp

lemma normalize_name_strip: "normalize_name (strip s) = normalize_name s"
proof (cases "strip s = []")
  case True
  then show ?thesis by (cases "s = []") (simp_all add: normalize_name_def normalize_blank)
next
  case False
  then have "s \<noteq> []" by auto
  with False show ?thesis by (simp add: normalize_name_def strip_strip)
qed

lemma looks_like_non_entity_strip: "looks_like_non_entity (strip s) = looks_like_non_entity s"
proof (cases "strip s = []")
  case True
  then show ?thesis by (simp add: looks_like_non_entity_def)
next
  case False
  then have "s \<noteq> []" by auto
  with False show ?thesis by (simp add: looks_like_non_entity_def strip_strip)
qed

lemma is_noise_entity_name_strip: "is_noise_entity_name (strip s) = is_noise_entity_name s"
  by (simp add: is_noise_entity_name_def looks_like_non_entity_strip normalize_name_strip)

lemma extract_loop_result:
  assumes "extract_loop scorer query cutoff best i choices = Some (c, s, idx)"
  shows "best = Some (c, s, idx)
         \<or> (i \<le> idx \<and> idx < i + length choices \<and> c = choices ! (idx - i)
             \<and> s = scorer query c \<and> cutoff \<le> s)"
  using assms
proof (induction choices arbitrary: best i)
  case Nil
  then show ?case by simp
next
  case (Cons choice choices)
  let ?score = "scorer query choice"
  show ?case
  proof (cases "?score \<ge> cutoff \<and> (case best of None \<Rightarrow> True | Some (_, b, _) \<Rightarrow> ?score > b)")
    case True
    with Cons.prems
    have "extract_loop scorer query cutoff (Some (choice, ?score, i)) (Suc i) choices = Some (c, s, idx)"
      by (simp add: Let_def)
    from Cons.IH [OF this] True show ?thesis by (auto simp: nth_Cons')
  next
    case False
    with Cons.prems
    have "extract_loop scorer query cutoff best (Suc i) choices = Some (c, s, idx)"
      by (simp add: Let_def)
    from Cons.IH [OF this] show ?thesis by (auto simp: nth_Cons')
  qed
qed

lemma extractOne_result:
  assumes "extractOne scorer query choices cutoff = Some (c, s, idx)"
  shows "idx < length choices \<and> c = choices ! idx \<and> s = scorer query c \<and> cutoff \<le> s"
  using extract_loop_result [OF assms [unfolded extractOne_def]] by auto

lemma exact_tier_method:
  assumes "exact_tier res forms = Some (Inr (x, m, c))"
  shows "m = ''exact'' \<or> m = ''alias''"
  using assms
  by (induction forms) (auto split: option.splits if_splits)

lemma fuzzy_tier_fuzzy:
  assumes "fuzzy_tier scorer res normalized = Inr (Some cid, ''fuzzy'', conf)"
  shows "\<exists>idx < length (all_names res).
           cid = snd (all_names res ! idx)
           \<and> conf = scorer normalized (fst (all_names res ! idx)) / 100
           \<and> fuzzy_threshold res \<le> scorer normalized (fst (all_names res ! idx))
           \<and> (length normalized \<le> 10 \<longrightarrow> 95 \<le> scorer normalized (fst (all_names res ! idx)))"
proof (cases "extractOne scorer normalized (name_strings res) (fuzzy_threshold res)")
  case None
  with assms show ?thesis by (simp add: fuzzy_tier_def)
next
  case (Some hit)
  obtain matched_name score idx where hit: "hit = (matched_name, score, idx)" by (cases hit)
  from extractOne_result [OF Some [unfolded hit]]
  have idx: "idx < length (all_names res)"
    and sc: "score = scorer normalized (fst (all_names res ! idx))"
    and cut: "fuzzy_threshold res \<le> score"
    by (auto simp: name_strings_def)
  from assms Some hit have guard: "\<not> (length normalized \<le> 10 \<and> score < 95)"
    and out: "cid = snd (all_names res ! idx)" "conf = score / 100"
    by (auto simp: fuzzy_tier_def split: if_splits)
  from guard have "length normalized \<le> 10 \<longrightarrow> 95 \<le> score" by auto
  with idx sc cut out show ?thesis by blast
qed

lemma resolve_fuzzy_tier:
  assumes "resolve scorer res source_name = Inr (Some cid, ''fuzzy'', conf)"
  shows "fuzzy_tier scorer res (normalize_name source_name) = Inr (Some cid, ''fuzzy'', conf)"
proof -
  define cleaned where "cleaned = strip source_name"
  define forms where
    "forms = [lower cleaned, lower (normalize_name cleaned), lower (get_short_name cleaned)]"
  have norm: "normalize_name cleaned = normalize_name source_name"
    by (simp add: cleaned_def normalize_name_strip)
  have unfold: "resolve scorer res source_name =
     (if source_name = [] \<or> cleaned = [] then Inr (None, ''no_match'', 0)
      else if is_noise_entity_name cleaned then Inr (None, ''noise'', 0)
      else (case exact_tier res forms of
              Some outcome \<Rightarrow> outcome
            | None \<Rightarrow>
                if is_numbered_reference cleaned then Inr (None, ''no_match'', 0)
                else if name_strings res = [] then Inr (None, ''no_match'', 0)
                else fuzzy_tier scorer res (normalize_name cleaned)))"
    unfolding resolve_def cleaned_def forms_def Let_def ..
  have 1: "\<not> (source_name = [] \<or> cleaned = [])"
    using assms unfolding unfold by (auto split: if_splits)
  have 2: "\<not> is_noise_entity_name cleaned"
    using assms 1 unfolding unfold by (auto split: if_splits)
  have 3: "exact_tier res forms = None"
  proof (cases "exact_tier res forms")
    case None
    then show ?thesis .
  next
    case (Some outcome)
    with assms 1 2 have "outcome = Inr (Some cid, ''fuzzy'', conf)"
      unfolding unfold by simp
    with Some exact_tier_method [of res forms "Some cid" "''fuzzy''" conf] show ?thesis by simp
  qed
  have 4: "\<not> is_numbered_reference cleaned" "name_strings res \<noteq> []"
    using assms 1 2 3 unfolding unfold by (auto split: if_splits)
  show ?thesis using assms 1 2 3 4 unfolding unfold norm by simp
qed

lemma resolve_fuzzy:
  assumes "resolve scorer res source_name = Inr (Some cid, ''fuzzy'', conf)"
  shows "\<exists>idx < length (all_names res).
           cid = snd (all_names res ! idx)
           \<and> conf = scorer (normalize_name source_name) (fst (all_names res ! idx)) / 100
           \<and> fuzzy_threshold res \<le> scorer (normalize_name source_name) (fst (all_names res ! idx))
           \<and> (length (normalize_name source_name) \<le> 10
                \<longrightarrow> 95 \<le> scorer (normalize_name source_name) (fst (all_names res ! idx)))"
  using fuzzy_tier_fuzzy [OF resolve_fuzzy_tier [OF assms]] .

lemma index_name_threshold:
  "index_name (r\<lparr>fuzzy_threshold := t\<rparr>) name cid = (index_name r name cid)\<lparr>fuzzy_threshold := t\<rparr>"
  by (simp add: index_name_def Let_def)

lemma index_entity_threshold:
  "index_entity (r\<lparr>fuzzy_threshold := t\<rparr>) e = (index_entity r e)\<lparr>fuzzy_threshold := t\<rparr>"
proof -
  have "foldl (\<lambda>r alias. if alias \<noteq> [] then index_name r alias cid else r)
          (r\<lparr>fuzzy_threshold := t\<rparr>) als
        = (foldl (\<lambda>r alias. if alias \<noteq> [] then index_name r alias cid else r) r als)
            \<lparr>fuzzy_threshold := t\<rparr>" for r :: resolver and cid als
    by (induction als arbitrary: r) (simp_all add: index_name_threshold)
  then show ?thesis by (simp add: index_entity_def index_name_threshold)
qed

lemma foldl_index_entity_threshold:
  "foldl index_entity (r\<lparr>fuzzy_threshold := t\<rparr>) es = (foldl index_entity r es)\<lparr>fuzzy_threshold := t\<rparr>"
  by (induction es arbitrary: r) (simp_all add: index_entity_threshold)

lemma EntityResolver_threshold:
  "EntityResolver reg t = (EntityResolver reg 0)\<lparr>fuzzy_threshold := t\<rparr>"
proof -
  have "\<lparr>registry = reg, fuzzy_threshold = t, exact_lookup = Map.empty, all_names = []\<rparr>
        = \<lparr>registry = reg, fuzzy_threshold = 0, exact_lookup = Map.empty, all_names = []\<rparr>
            \<lparr>fuzzy_threshold := t\<rparr>" by simp
  then show ?thesis
    unfolding EntityResolver_def by (simp only: foldl_index_entity_threshold)
qed

lemma exact_tier_threshold:
  "exact_tier (r\<lparr>fuzzy_threshold := t\<rparr>) forms = exact_tier r forms"
  by (induction forms) (simp_all split: option.splits)

lemma resolve_john_perry:
  "resolve token_sort_ratio (EntityResolver [person ''PER-00001'' ''John Kerry'' []] threshold)
     ''John Perry'' = Inr (None, ''no_match'', 0)"
proof -
  define R0 where "R0 = EntityResolver [person ''PER-00001'' ''John Kerry'' []] 0"
  have R: "EntityResolver [person ''PER-00001'' ''John Kerry'' []] threshold
           = R0\<lparr>fuzzy_threshold := threshold\<rparr>"
    unfolding R0_def by (rule EntityResolver_threshold)
  have a: "strip ''John Perry'' = ''John Perry''" by code_simp
  have b: "\<not> is_noise_entity_name ''John Perry''" by code_simp
  have forms: "[lower ''John Perry'', lower (normalize_name ''John Perry''),
                lower (get_short_name ''John Perry'')]
               = [''john perry'', ''john perry'', ''john perry'']" by code_simp
  have c: "exact_tier R0 [''john perry'', ''john perry'', ''john perry''] = None"
    unfolding R0_def by code_simp
  have d: "\<not> is_numbered_reference ''John Perry''" by code_simp
  have e: "all_names R0 = [(''John Kerry'', ''PER-00001'')]" unfolding R0_def by code_simp
  have f: "normalize_name ''John Perry'' = ''John Perry''" by code_simp
  have g: "token_sort_ratio ''John Perry'' ''John Kerry'' = 90" by code_simp
  have tier: "exact_tier (R0\<lparr>fuzzy_threshold := threshold\<rparr>)
                [lower ''John Perry'', lower (normalize_name ''John Perry''),
                 lower (get_short_name ''John Perry'')] = None"
    unfolding forms exact_tier_threshold by (rule c)
  have fuzzy: "fuzzy_tier token_sort_ratio (R0\<lparr>fuzzy_threshold := threshold\<rparr>)
                 (normalize_name ''John Perry'') = Inr (None, ''no_match'', 0)"
    unfolding f by (simp add: fuzzy_tier_def name_strings_def e extractOne_def g)
  show ?thesis
    unfolding R resolve_def Let_def a tier fuzzy
    using b d by simp
qed

section \<open>Claim C4: noise names are rejected by the resolver\<close>

text \<open>
  C4 states that \<open>resolve\<close> answers \<open>(None, "noise", 0.0)\<close> for every name the noise
  classifier rejects, names that are empty after trimming included. A blank name never
  reaches the classifier: the first test of \<open>resolve\<close> returns \<open>"no_match"\<close> for it.
\<close>

theorem resolve_blank_is_no_match:
  "is_noise_entity_name ''   ''
   \<and> resolve token_sort_ratio (EntityResolver [person ''PER-00001'' ''John Kerry'' []] 90) ''   ''
       = Inr (None, ''no_match'', 0)"
  by code_simp

text \<open>
  C4 as amended: for every name the classifier rejects, \<open>resolve\<close> returns no id and
  confidence 0, with the method \<open>"noise"\<close> when the name is not empty after trimming and
  \<open>"no_match"\<close> when it is.
\<close>

theorem resolve_rejects_noise:
  assumes "is_noise_entity_name source_name"
  shows "resolve scorer res source_name =
           Inr (None, if strip source_name = [] then ''no_match'' else ''noise'', 0)"
  using assms by (auto simp: resolve_def is_noise_entity_name_strip)

text \<open>The amended statement at \<open>" Unknown Person "\<close>.\<close>

theorem resolve_rejects_noise_witness:
  "is_noise_entity_name '' Unknown Person ''
   \<and> resolve token_sort_ratio (EntityResolver [person ''PER-00001'' ''John Kerry'' []] 90)
         '' Unknown Person '' = Inr (None, ''noise'', 0)"
proof -
  have h: "is_noise_entity_name '' Unknown Person ''" by code_simp
  have s: "strip '' Unknown Person '' = ''Unknown Person''" by code_simp
  from resolve_rejects_noise [OF h, of token_sort_ratio
      "EntityResolver [person ''PER-00001'' ''John Kerry'' []] 90"] h s
  show ?thesis by simp
qed

section \<open>Claim C7: the short-name guard of the fuzzy tier\<close>

text \<open>
  C7: when the normalized input has at most 10 characters, \<open>resolve\<close> returns a fuzzy
  match only with a similarity score of at least 95, whatever scorer and cutoff the
  resolver was built with; the match is an indexed name, and the confidence is its score
  over 100. In particular \<open>"John Perry"\<close> against a registry holding \<open>"John Kerry"\<close>
  (token-sort ratio 90) is not matched, for every cutoff.
\<close>

theorem short_name_guard:
  "(resolve scorer res source_name = Inr (Some cid, ''fuzzy'', conf)
      \<and> length (normalize_name source_name) \<le> 10
    \<longrightarrow> (\<exists>idx < length (all_names res).
           cid = snd (all_names res ! idx)
           \<and> conf = scorer (normalize_name source_name) (fst (all_names res ! idx)) / 100
           \<and> 95 \<le> scorer (normalize_name source_name) (fst (all_names res ! idx))))
   \<and> resolve token_sort_ratio (EntityResolver [person ''PER-00001'' ''John Kerry'' []] threshold)
        ''John Perry'' = Inr (None, ''no_match'', 0)"
  using resolve_fuzzy [of scorer res source_name cid conf] resolve_john_perry [of threshold]
  by blast

text \<open>
  A short name that does pass the guard: \<open>"Kerry John"\<close> has the token-sort ratio 100
  with \<open>"John Kerry"\<close>.
\<close>

theorem short_name_guard_witness:
  "resolve token_sort_ratio (EntityResolver [person ''PER-00001'' ''John Kerry'' []] 90)
      ''Kerry John'' = Inr (Some ''PER-00001'', ''fuzzy'', 1)
   \<and> length (normalize_name ''Kerry John'') \<le> 10
   \<and> 95 \<le> token_sort_ratio (normalize_name ''Kerry John'') ''John Kerry''"
proof -
  let ?R = "EntityResolver [person ''PER-00001'' ''John Kerry'' []] 90"
  have r: "resolve token_sort_ratio ?R ''Kerry John'' = Inr (Some ''PER-00001'', ''fuzzy'', 1)"
    by code_simp
  have l: "length (normalize_name ''Kerry John'') \<le> 10" by code_simp
  have n: "all_names ?R = [(''John Kerry'', ''PER-00001'')]" by code_simp
  from short_name_guard [of token_sort_ratio ?R "''Kerry John''" "''PER-00001''" 1] r l
  obtain idx where "idx < length (all_names ?R)"
    "95 \<le> token_sort_ratio (normalize_name ''Kerry John'') (fst (all_names ?R ! idx))"
    by blast
  then have "95 \<le> token_sort_ratio (normalize_name ''Kerry John'') ''John Kerry''"
    unfolding n by simp
  with r l show ?thesis by simp
qed

section \<open>The expanded noise filter (merge\_entities.py)\<close>

text \<open>
  The word lists are Python sets, used for membership only. A compiled pattern is held
  as the flag \<open>re.IGNORECASE\<close>, the expression and its source text (\<open>pat.pattern\<close>, which
  \<open>_classify_noise\<close> prints).
\<close>

definition EXPANDED_NOISE_EXACT :: "string list" where
  "EXPANDED_NOISE_EXACT =
     [''president'', ''attorney'', ''judge'', ''senator'', ''detective'',
      ''agent'', ''officer'', ''prosecutor'', ''prosecutors'', ''counsel'',
      ''public'', ''communication'', ''journalist'', ''journalists'',
      ''applicant'', ''appellant'', ''respondent'',
      ''government'', ''state'', ''country'',
      ''federal prosecutors'', ''federal agents'', ''federal government'',
      ''law enforcement'', ''defense counsel'', ''legal counsel'',
      ''epstein case'', ''jeffrey epstein appellate case'']"

definition EXPANDED_NOISE_PATTERNS :: "(bool \<times> rx \<times> string) list" where
  "EXPANDED_NOISE_PATTERNS =
     [(False, rx_seq [Bol, rx_plus (Cls isword), rx_plus (Cls isspace), Lit (CHR ''?''), Eol],
       ''^'' @ [CHR 0x5C] @ ''w+'' @ [CHR 0x5C] @ ''s+'' @ [CHR 0x5C] @ ''?$''),
      (True, rx_seq [Bol, rx_opt (rx_seq [rx_str ''Jeffrey'', rx_plus (Cls isspace)]),
                     rx_str ''Epstein'', rx_plus (Cls isspace),
                     rx_alt [''case'', ''appellate'', ''investigation'', ''matter'']],
       ''^(Jeffrey'' @ [CHR 0x5C] @ ''s+)?Epstein'' @ [CHR 0x5C]
         @ ''s+(case|appellate|investigation|matter)''),
      (False, rx_seq [Bol, Cls isword, rx_opt (Cls isword), Eol],
       ''^'' @ [CHR 0x5C] @ ''w{1,2}$''),
      (False, rx_seq [Bol, Cls (\<lambda>c. CHR ''A'' \<le> c \<and> c \<le> CHR ''Z''), Lit (CHR ''.''),
                      Cls (\<lambda>c. CHR ''A'' \<le> c \<and> c \<le> CHR ''Z''), Lit (CHR ''.''), Eol],
       ''^[A-Z]'' @ [CHR 0x5C] @ ''.[A-Z]'' @ [CHR 0x5C] @ ''.$'')]"

definition NOISE_FIRST_NAMES :: "string list" where
  "NOISE_FIRST_NAMES =
     [''mary'', ''david'', ''sarah'', ''john'', ''james'', ''michael'', ''robert'',
      ''tony'', ''leon'', ''eva'', ''rebecca'', ''bruce'', ''roger'', ''ralph'',
      ''warren'', ''mark'', ''steve'', ''chris'', ''peter'', ''paul'', ''george'',
      ''jane'', ''tom'', ''joe'']"

definition PROTECTED_SINGLE_WORDS :: "string list" where
  "PROTECTED_SINGLE_WORDS =
     [''hamas'', ''isis'', ''hezbollah'', ''mossad'', ''interpol'',
      ''libya'', ''iraq'', ''iran'', ''syria'', ''yemen'', ''qatar'', ''dubai'',
      ''harvard'', ''yale'', ''princeton'', ''stanford'', ''columbia'', ''mit'',
      ''citibank'', ''barclays'', ''jpmorgan'', ''wexner'', ''victoria'']"

text \<open>\<open>is_expanded_noise\<close> and \<open>_classify_noise\<close>, test by test.\<close>

definition is_expanded_noise :: "string \<Rightarrow> bool" where
  "is_expanded_noise name =
     (if name = [] \<or> strip name = [] then True
      else (let s = strip name in
        if is_noise_entity_name s then True
        else (let lowered = strip (lower s) in
          if lowered \<in> set PROTECTED_SINGLE_WORDS then False
          else if lowered \<in> set EXPANDED_NOISE_EXACT then True
          else if CHR '' '' \<notin> set (strip s) \<and> lowered \<in> set NOISE_FIRST_NAMES then True
          else if endswith s '' ?'' \<or> (endswith s ''?'' \<and> length s \<le> 15) then True
          else list_ex (\<lambda>(ic, pat, src). re_match ic pat s) EXPANDED_NOISE_PATTERNS)))"

definition classify_noise :: "string \<Rightarrow> string" where
  "classify_noise name =
     (let lowered = lower (strip name) in
      if lowered \<in> set EXPANDED_NOISE_EXACT then ''generic_word:'' @ lowered
      else if CHR '' '' \<notin> set (strip name) \<and> lowered \<in> set NOISE_FIRST_NAMES
        then ''standalone_first_name:'' @ lowered
      else if endswith name '' ?'' \<or> endswith name ''?'' then ''question_mark_placeholder''
      else if is_noise_entity_name name then ''base_noise_filter''
      else (case find (\<lambda>(ic, pat, src). re_match ic pat name) EXPANDED_NOISE_PATTERNS of
              Some (ic, pat, src) \<Rightarrow> ''pattern_match:'' @ src
            | None \<Rightarrow> ''expanded_noise''))"

section \<open>The noise phase (\<open>find_noise_entities\<close> and phase 1 of \<open>main\<close>)\<close>

text \<open>
  \<open>meta.get("exclude_from_analysis")\<close> as a condition: a missing key gives \<open>None\<close>, and a
  JSON value is false when it is \<open>null\<close>, \<open>false\<close>, zero or empty.
\<close>

fun truthy :: "json \<Rightarrow> bool" where
  "truthy JNull = False"
| "truthy (JBool b) = b"
| "truthy (JInt i) = (i \<noteq> 0)"
| "truthy (JFloat r) = (r \<noteq> 0)"
| "truthy (JStr s) = (s \<noteq> [])"
| "truthy (JList l) = (l \<noteq> [])"
| "truthy (JObj ob) = (ob \<noteq> [])"

definition already_flagged :: "entity \<Rightarrow> bool" where
  "already_flagged e =
     (case map_of (metadata e) ''exclude_from_analysis'' of None \<Rightarrow> False | Some v \<Rightarrow> truthy v)"

text \<open>
  \<open>find_noise_entities\<close> walks the registry, which \<open>load_canonical_registry\<close> fills from
  the rows of \<open>canonical_entities\<close> in their order (\<open>canonical_id\<close> is the primary key, so
  no row is lost in the dictionary). Both lists are in registry order, and the prominence
  is the one counted before anything is deleted.
\<close>

type_synonym noise_item = "string \<times> string \<times> string"

fun find_noise_loop :: "db \<Rightarrow> entity list \<Rightarrow> noise_item list \<times> noise_item list" where
  "find_noise_loop d [] = ([], [])"
| "find_noise_loop d (e # es) =
     (let (deletable, flaggable) = find_noise_loop d es;
          name = canonical_name e
      in if \<not> is_expanded_noise name then (deletable, flaggable)
         else if already_flagged e then (deletable, flaggable)
         else if prominence d (canonical_id e) > 50
              then (deletable, (canonical_id e, name, classify_noise name) # flaggable)
              else ((canonical_id e, name, classify_noise name) # deletable, flaggable))"

definition find_noise_entities :: "db \<Rightarrow> noise_item list \<times> noise_item list" where
  "find_noise_entities d = find_noise_loop d (canonical_entities d)"

text \<open>
  Phase 1 of \<open>main\<close>: every deletable entity is deleted, then every flaggable one is
  flagged. \<open>clock\<close> gives the value of \<open>now_iso()\<close> at the i-th call.
\<close>

fun delete_all :: "(nat \<Rightarrow> string) \<Rightarrow> bool \<Rightarrow> nat \<Rightarrow> db \<Rightarrow> noise_item list \<Rightarrow> db" where
  "delete_all clock dry_run i d [] = d"
| "delete_all clock dry_run i d ((cid, name, reason) # rest) =
     delete_all clock dry_run (Suc i)
       (fst (delete_noise_entity (clock i) d cid name reason dry_run)) rest"

fun flag_all :: "(nat \<Rightarrow> string) \<Rightarrow> bool \<Rightarrow> nat \<Rightarrow> db \<Rightarrow> noise_item list \<Rightarrow> db" where
  "flag_all clock dry_run i d [] = d"
| "flag_all clock dry_run i d ((cid, name, reason) # rest) =
     flag_all clock dry_run (Suc i) (flag_noise_entity (clock i) d cid name reason dry_run) rest"

definition noise_phase :: "(nat \<Rightarrow> string) \<Rightarrow> db \<Rightarrow> bool \<Rightarrow> db" where
  "noise_phase clock d dry_run =
     (let (deletable, flaggable) = find_noise_entities d;
          d1 = delete_all clock dry_run 0 d deletable
      in flag_all clock dry_run (length deletable) d1 flaggable)"

text \<open>
  A store with three persons: "Unknown Person" with 51 edges, "Roger ?" with one edge,
  which it shares with "Unknown Person", and "Ghislaine Maxwell".
\<close>

definition entity_row :: "string \<Rightarrow> string \<Rightarrow> string \<Rightarrow> entity" where
  "entity_row cid ty name =
     \<lparr>canonical_id = cid, entity_type = ty, canonical_name = name, aliases = [],
      metadata = [(''source_system'', JStr ''epstein-docs'')], last_updated = ''2025-01-01''\<rparr>"

definition noise_db :: db where
  "noise_db = \<lparr>canonical_entities =
       [entity_row ''PER-00001'' ''person'' ''Unknown Person'',
        entity_row ''PER-00002'' ''person'' ''Roger ?'',
        entity_row ''PER-00003'' ''person'' ''Ghislaine Maxwell''],
     relationships =
       edge 0 ''PER-00001'' ''PER-00002''
       # map (\<lambda>n. edge n ''PER-00001'' ''PER-00003'') [1..<51],
     relationship_sources = [\<lparr>rs_id = 1, rs_relationship_id = 0, rs_source_system = ''epstein-docs''\<rparr>],
     entity_resolution_log = [\<lparr>resolution_id = 1, rl_canonical_id = ''PER-00002'', rl_source_entity_name = ''Roger ?''\<rparr>],
     entity_merges = []\<rparr>"

definition noise_clock :: "nat \<Rightarrow> string" where
  "noise_clock i = ''2026-01-01T00:00:00+00:00''"

text \<open>
  The entities \<open>find_noise_entities\<close> puts on its two lists, as predicates, and the
  triple it records for one.
\<close>

definition noise_item :: "entity \<Rightarrow> noise_item" where
  "noise_item e = (canonical_id e, canonical_name e, classify_noise (canonical_name e))"

definition to_delete :: "db \<Rightarrow> entity \<Rightarrow> bool" where
  "to_delete d e = (is_expanded_noise (canonical_name e) \<and> \<not> already_flagged e
                    \<and> prominence d (canonical_id e) \<le> 50)"

definition to_flag :: "db \<Rightarrow> entity \<Rightarrow> bool" where
  "to_flag d e = (is_expanded_noise (canonical_name e) \<and> \<not> already_flagged e
                  \<and> prominence d (canonical_id e) > 50)"

text \<open>The ids of the edges of a store that touch one of the given entities.\<close>

definition edge_ids_of :: "db \<Rightarrow> string set \<Rightarrow> nat set" where
  "edge_ids_of d cids =
     relationship_id ` {r \<in> set (relationships d). \<exists>c \<in> cids. touches c r}"

section \<open>Facts about the noise phase\<close>

lemma foldl_delete_relationship:
  "foldl delete_relationship d ids =
     d\<lparr>relationship_sources := filter (\<lambda>s. rs_relationship_id s \<notin> set ids) (relationship_sources d),
       relationships := filter (\<lambda>r. relationship_id r \<notin> set ids) (relationships d)\<rparr>"
proof (induction ids arbitrary: d)
  case Nil
  show ?case by simp
next
  case (Cons rid ids)
  have "foldl delete_relationship d (rid # ids)
        = foldl delete_relationship (delete_relationship d rid) ids" by simp
  also have "\<dots> = (delete_relationship d rid)
       \<lparr>relationship_sources := filter (\<lambda>s. rs_relationship_id s \<notin> set ids)
                                    (relationship_sources (delete_relationship d rid)),
        relationships := filter (\<lambda>r. relationship_id r \<notin> set ids)
                            (relationships (delete_relationship d rid))\<rparr>"
    by (rule Cons)
  also have "\<dots> = d\<lparr>relationship_sources :=
                       filter (\<lambda>s. rs_relationship_id s \<notin> set (rid # ids)) (relationship_sources d),
                     relationships :=
                       filter (\<lambda>r. relationship_id r \<notin> set (rid # ids)) (relationships d)\<rparr>"
    by (simp add: delete_relationship_def conj_commute)
  finally show ?case .
qed

lemma delete_noise_entity_tables:
  "canonical_entities (fst (delete_noise_entity now d cid name reason False))
     = filter (\<lambda>e. canonical_id e \<noteq> cid) (canonical_entities d)"
  "relationships (fst (delete_noise_entity now d cid name reason False))
     = filter (\<lambda>r. relationship_id r \<notin> edge_ids_of d {cid}) (relationships d)"
  "relationship_sources (fst (delete_noise_entity now d cid name reason False))
     = filter (\<lambda>s. rs_relationship_id s \<notin> edge_ids_of d {cid}) (relationship_sources d)"
  "entity_resolution_log (fst (delete_noise_entity now d cid name reason False))
     = filter (\<lambda>l. rl_canonical_id l \<noteq> cid) (entity_resolution_log d)"
  by (simp_all add: delete_noise_entity_def Let_def foldl_delete_relationship edge_ids_of_def
                    image_def conj_commute)

lemma edge_ids_of_step:
  assumes "relationships d1 = filter (\<lambda>r. relationship_id r \<notin> edge_ids_of d {c}) (relationships d)"
      and "n \<notin> edge_ids_of d {c}"
  shows "n \<in> edge_ids_of d1 cs \<longleftrightarrow> n \<in> edge_ids_of d cs"
  using assms by (auto simp: edge_ids_of_def image_iff)

lemma edge_ids_of_insert:
  "edge_ids_of d (insert c cs) = edge_ids_of d {c} \<union> edge_ids_of d cs"
  by (auto simp: edge_ids_of_def)

lemma delete_all_tables:
  "canonical_entities (delete_all clock False i d items)
     = filter (\<lambda>e. canonical_id e \<notin> fst ` set items) (canonical_entities d)
   \<and> relationships (delete_all clock False i d items)
     = filter (\<lambda>r. relationship_id r \<notin> edge_ids_of d (fst ` set items)) (relationships d)
   \<and> relationship_sources (delete_all clock False i d items)
     = filter (\<lambda>s. rs_relationship_id s \<notin> edge_ids_of d (fst ` set items)) (relationship_sources d)
   \<and> entity_resolution_log (delete_all clock False i d items)
     = filter (\<lambda>l. rl_canonical_id l \<notin> fst ` set items) (entity_resolution_log d)"
proof (induction items arbitrary: i d)
  case Nil
  show ?case by (simp add: edge_ids_of_def)
next
  case (Cons item items)
  obtain cid name reason where item: "item = (cid, name, reason)" by (cases item)
  define d1 where "d1 = fst (delete_noise_entity (clock i) d cid name reason False)"
  note t = delete_noise_entity_tables [of "clock i" d cid name reason, folded d1_def]
  note ih = Cons.IH [of "Suc i" d1]
  have step: "n \<in> edge_ids_of d1 (fst ` set items) \<longleftrightarrow> n \<in> edge_ids_of d (fst ` set items)"
    if "n \<notin> edge_ids_of d {cid}" for n
    using t(2) that by (rule edge_ids_of_step)
  have keys: "fst ` set (item # items) = insert cid (fst ` set items)" by (simp add: item)
  have split: "edge_ids_of d (fst ` set (item # items))
               = edge_ids_of d {cid} \<union> edge_ids_of d (fst ` set items)"
    unfolding keys by (rule edge_ids_of_insert)
  have run: "delete_all clock False i d (item # items) = delete_all clock False (Suc i) d1 items"
    by (simp add: item d1_def)
  have 1: "canonical_entities (delete_all clock False i d (item # items))
     = filter (\<lambda>e. canonical_id e \<notin> fst ` set (item # items)) (canonical_entities d)"
    unfolding run using ih by (simp add: t item conj_commute)
  have 2: "relationships (delete_all clock False i d (item # items))
     = filter (\<lambda>r. relationship_id r \<notin> edge_ids_of d (fst ` set (item # items))) (relationships d)"
  proof -
    have "relationships (delete_all clock False (Suc i) d1 items)
          = filter (\<lambda>r. relationship_id r \<notin> edge_ids_of d1 (fst ` set items))
              (filter (\<lambda>r. relationship_id r \<notin> edge_ids_of d {cid}) (relationships d))"
      using ih by (simp only: t)
    also have "\<dots> = filter (\<lambda>r. relationship_id r \<notin> edge_ids_of d {cid}
                                  \<and> relationship_id r \<notin> edge_ids_of d1 (fst ` set items))
                           (relationships d)"
      by (simp only: filter_filter)
    also have "\<dots> = filter (\<lambda>r. relationship_id r \<notin> edge_ids_of d {cid} \<union> edge_ids_of d (fst ` set items))
                           (relationships d)"
      by (rule filter_cong [OF refl]) (use step in blast)
    finally show ?thesis unfolding run split .
  qed
  have 3: "relationship_sources (delete_all clock False i d (item # items))
     = filter (\<lambda>s. rs_relationship_id s \<notin> edge_ids_of d (fst ` set (item # items)))
         (relationship_sources d)"
  proof -
    have "relationship_sources (delete_all clock False (Suc i) d1 items)
          = filter (\<lambda>s. rs_relationship_id s \<notin> edge_ids_of d1 (fst ` set items))
              (filter (\<lambda>s. rs_relationship_id s \<notin> edge_ids_of d {cid}) (relationship_sources d))"
      using ih by (simp only: t)
    also have "\<dots> = filter (\<lambda>s. rs_relationship_id s \<notin> edge_ids_of d {cid}
                                  \<and> rs_relationship_id s \<notin> edge_ids_of d1 (fst ` set items))
                           (relationship_sources d)"
      by (simp only: filter_filter)
    also have "\<dots> = filter (\<lambda>s. rs_relationship_id s \<notin> edge_ids_of d {cid} \<union> edge_ids_of d (fst ` set items))
                           (relationship_sources d)"
      by (rule filter_cong [OF refl]) (use step in blast)
    finally show ?thesis unfolding run split .
  qed
  have 4: "entity_resolution_log (delete_all clock False i d (item # items))
     = filter (\<lambda>l. rl_canonical_id l \<notin> fst ` set (item # items)) (entity_resolution_log d)"
    unfolding run using ih by (simp add: t item conj_commute)
  show ?case using 1 2 3 4 by blast
qed

lemma flag_noise_entity_tables:
  "relationships (flag_noise_entity now d cid name reason False) = relationships d"
  "relationship_sources (flag_noise_entity now d cid name reason False) = relationship_sources d"
  "entity_resolution_log (flag_noise_entity now d cid name reason False) = entity_resolution_log d"
  "map canonical_id (canonical_entities (flag_noise_entity now d cid name reason False))
     = map canonical_id (canonical_entities d)"
  by (simp_all add: flag_noise_entity_def update_entity_def Let_def o_def)

lemma flag_noise_entity_target:
  assumes "e' \<in> set (canonical_entities (flag_noise_entity now d cid name reason False))"
      and "canonical_id e' = cid"
  shows "map_of (metadata e') ''exclude_from_analysis'' = Some (JBool True)
       \<and> map_of (metadata e') ''exclude_reason'' = Some (JStr reason)"
proof -
  define m where "m = AList.update ''exclude_reason'' (JStr reason)
                        (AList.update ''exclude_from_analysis'' (JBool True)
                           (case find_entity d cid of None \<Rightarrow> [] | Some row \<Rightarrow> metadata row))"
  have ents: "canonical_entities (flag_noise_entity now d cid name reason False)
        = map (\<lambda>e. if canonical_id e = cid then e\<lparr>metadata := m, last_updated := now\<rparr> else e)
              (canonical_entities d)"
    by (simp add: flag_noise_entity_def update_entity_def Let_def m_def)
  from assms(1) obtain e where e: "e \<in> set (canonical_entities d)"
    and e': "e' = (if canonical_id e = cid then e\<lparr>metadata := m, last_updated := now\<rparr> else e)"
    unfolding ents by auto
  have "canonical_id e = cid"
  proof (rule ccontr)
    assume "canonical_id e \<noteq> cid"
    with e' assms(2) show False by simp
  qed
  with e' have "metadata e' = m" by simp
  then show ?thesis by (simp add: m_def update_conv')
qed

lemma flag_noise_entity_other:
  assumes "c \<noteq> cid"
  shows "filter (\<lambda>e. canonical_id e = c) (canonical_entities (flag_noise_entity now d cid name reason False))
       = filter (\<lambda>e. canonical_id e = c) (canonical_entities d)"
proof -
  have "filter (\<lambda>e. canonical_id e = c)
          (map (\<lambda>e. if canonical_id e = cid then e\<lparr>metadata := m, last_updated := t\<rparr> else e) es)
        = filter (\<lambda>e. canonical_id e = c) es" for m t and es :: "entity list"
    using assms by (induction es) auto
  then show ?thesis by (simp add: flag_noise_entity_def update_entity_def Let_def)
qed

lemma flag_all_tables:
  "relationships (flag_all clock False i d items) = relationships d
   \<and> relationship_sources (flag_all clock False i d items) = relationship_sources d
   \<and> entity_resolution_log (flag_all clock False i d items) = entity_resolution_log d
   \<and> map canonical_id (canonical_entities (flag_all clock False i d items))
       = map canonical_id (canonical_entities d)"
proof (induction items arbitrary: i d)
  case Nil
  show ?case by simp
next
  case (Cons item items)
  obtain cid name reason where item: "item = (cid, name, reason)" by (cases item)
  show ?case
    unfolding item flag_all.simps
    using Cons.IH [of "Suc i" "flag_noise_entity (clock i) d cid name reason False"]
    by (simp only: flag_noise_entity_tables)
qed

lemma flag_all_other:
  assumes "c \<notin> fst ` set items"
  shows "filter (\<lambda>e. canonical_id e = c) (canonical_entities (flag_all clock False i d items))
       = filter (\<lambda>e. canonical_id e = c) (canonical_entities d)"
  using assms
proof (induction items arbitrary: i d)
  case Nil
  show ?case by simp
next
  case (Cons item items)
  obtain cid name reason where item: "item = (cid, name, reason)" by (cases item)
  from Cons.prems have ne: "c \<noteq> cid" and rest: "c \<notin> fst ` set items" by (auto simp: item)
  show ?case
    unfolding item flag_all.simps
    by (simp only: Cons.IH [OF rest] flag_noise_entity_other [OF ne])
qed

lemma flag_all_target:
  assumes "(cid, name, reason) \<in> set items" and "distinct (map fst items)"
      and "e' \<in> set (canonical_entities (flag_all clock False i d items))"
      and "canonical_id e' = cid"
  shows "map_of (metadata e') ''exclude_from_analysis'' = Some (JBool True)
       \<and> map_of (metadata e') ''exclude_reason'' = Some (JStr reason)"
  using assms
proof (induction items arbitrary: i d)
  case Nil
  then show ?case by simp
next
  case (Cons item items)
  obtain c0 n0 r0 where item: "item = (c0, n0, r0)" by (cases item)
  define d1 where "d1 = flag_noise_entity (clock i) d c0 n0 r0 False"
  have run: "flag_all clock False i d (item # items) = flag_all clock False (Suc i) d1 items"
    by (simp add: item d1_def)
  from Cons.prems(2) have notin: "c0 \<notin> fst ` set items" and dist: "distinct (map fst items)"
    by (simp_all add: item)
  show ?case
  proof (cases "c0 = cid")
    case True
    with Cons.prems(1) notin have same: "n0 = name" "r0 = reason"
      by (auto simp: item image_iff)
    from notin True have notin': "cid \<notin> fst ` set items" by simp
    from Cons.prems(3,4) have "e' \<in> set (filter (\<lambda>e. canonical_id e = cid)
                                       (canonical_entities (flag_all clock False (Suc i) d1 items)))"
      unfolding run by simp
    then have "e' \<in> set (filter (\<lambda>e. canonical_id e = cid) (canonical_entities d1))"
      unfolding flag_all_other [OF notin'] .
    then have "e' \<in> set (canonical_entities d1)" by simp
    then show ?thesis
      unfolding d1_def True same using Cons.prems(4) by (rule flag_noise_entity_target)
  next
    case False
    with Cons.prems(1) have "(cid, name, reason) \<in> set items" by (simp add: item)
    from Cons.IH [OF this dist Cons.prems(3) [unfolded run] Cons.prems(4)] show ?thesis .
  qed
qed

lemma find_noise_loop_lists:
  "find_noise_loop d es = (map noise_item (filter (to_delete d) es), map noise_item (filter (to_flag d) es))"
  by (induction es) (auto simp: noise_item_def to_delete_def to_flag_def Let_def)

lemma noise_phase_split:
  "noise_phase clock d False =
     flag_all clock False (length (filter (to_delete d) (canonical_entities d)))
       (delete_all clock False 0 d (map noise_item (filter (to_delete d) (canonical_entities d))))
       (map noise_item (filter (to_flag d) (canonical_entities d)))"
  by (simp add: noise_phase_def find_noise_entities_def find_noise_loop_lists)

lemma fst_noise_items: "fst ` set (map noise_item es) = canonical_id ` set es"
  by (auto simp: noise_item_def image_iff)

section \<open>Claim C6: what the noise phase does with a noise entity\<close>

text \<open>
  C6 states that a noise entity that is not flagged yet is deleted with all its edges,
  provenance rows and resolution-log rows when at most 50 edges touch it, and is
  otherwise flagged \<open>exclude_from_analysis\<close> with a reason, its edges left intact. The
  edges of a flagged entity are not all left intact: an edge to a noise entity that is
  deleted in the same run goes with that entity. In \<open>noise_db\<close> "Unknown Person" has 51
  edges and is flagged; its edge to "Roger ?" is deleted with "Roger ?", and 50 remain.
\<close>

theorem noise_phase_shared_edge:
  "entity_row ''PER-00001'' ''person'' ''Unknown Person'' \<in> set (canonical_entities noise_db)
   \<and> is_expanded_noise ''Unknown Person''
   \<and> \<not> already_flagged (entity_row ''PER-00001'' ''person'' ''Unknown Person'')
   \<and> prominence noise_db ''PER-00001'' = 51
   \<and> edge 0 ''PER-00001'' ''PER-00002'' \<in> set (relationships noise_db)
   \<and> touches ''PER-00001'' (edge 0 ''PER-00001'' ''PER-00002'')
   \<and> edge 0 ''PER-00001'' ''PER-00002'' \<notin> set (relationships (noise_phase noise_clock noise_db False))
   \<and> prominence (noise_phase noise_clock noise_db False) ''PER-00001'' = 50"
proof -
  have 1: "entity_row ''PER-00001'' ''person'' ''Unknown Person'' \<in> set (canonical_entities noise_db)"
    by code_simp
  have 2: "is_expanded_noise ''Unknown Person''" by code_simp
  have 3: "\<not> already_flagged (entity_row ''PER-00001'' ''person'' ''Unknown Person'')" by code_simp
  have 4: "prominence noise_db ''PER-00001'' = 51" by code_simp
  have 5: "edge 0 ''PER-00001'' ''PER-00002'' \<in> set (relationships noise_db)" by code_simp
  have 6: "touches ''PER-00001'' (edge 0 ''PER-00001'' ''PER-00002'')" by code_simp
  have 7: "edge 0 ''PER-00001'' ''PER-00002''
             \<notin> set (relationships (noise_phase noise_clock noise_db False))" by code_simp
  have 8: "prominence (noise_phase noise_clock noise_db False) ''PER-00001'' = 50" by code_simp
  from 1 2 3 4 5 6 7 8 show ?thesis by (intro conjI)
qed

text \<open>
  C6 as amended, for a run that is not a dry run on a store whose entity ids and edge
  ids are distinct (they are primary keys). For every entity that the expanded filter
  calls noise and that is not flagged yet, with the prominence counted before the run:
  \<^item> at most 50: after the run no entity has its id, no edge touches it, no provenance
    row belongs to an edge that touched it and no resolution-log row names it;
  \<^item> more than 50: an entity with its id is there, with \<open>exclude_from_analysis\<close> true and
    \<open>exclude_reason\<close> the classification of its name; and every edge that touched it
    and touches no entity deleted in this run (a noise entity, not flagged, of
    prominence at most 50) is still there, with all its provenance rows.
\<close>

theorem noise_phase_disposition:
  assumes pk: "distinct (map canonical_id (canonical_entities d))"
      and rk: "distinct (map relationship_id (relationships d))"
      and e: "e \<in> set (canonical_entities d)"
      and noise: "is_expanded_noise (canonical_name e)"
      and unflagged: "\<not> already_flagged e"
  shows "(prominence d (canonical_id e) \<le> 50 \<longrightarrow>
            canonical_id e \<notin> canonical_id ` set (canonical_entities (noise_phase clock d False))
          \<and> (\<forall>r \<in> set (relationships (noise_phase clock d False)). \<not> touches (canonical_id e) r)
          \<and> (\<forall>r \<in> set (relationships d). touches (canonical_id e) r \<longrightarrow>
                (\<forall>s \<in> set (relationship_sources (noise_phase clock d False)).
                   rs_relationship_id s \<noteq> relationship_id r))
          \<and> (\<forall>l \<in> set (entity_resolution_log (noise_phase clock d False)).
                rl_canonical_id l \<noteq> canonical_id e))
       \<and> (prominence d (canonical_id e) > 50 \<longrightarrow>
            (\<exists>e' \<in> set (canonical_entities (noise_phase clock d False)).
                canonical_id e' = canonical_id e
                \<and> map_of (metadata e') ''exclude_from_analysis'' = Some (JBool True)
                \<and> map_of (metadata e') ''exclude_reason''
                    = Some (JStr (classify_noise (canonical_name e))))
          \<and> (\<forall>r \<in> set (relationships d).
                touches (canonical_id e) r
                \<and> \<not> (\<exists>x \<in> set (canonical_entities d).
                        is_expanded_noise (canonical_name x) \<and> \<not> already_flagged x
                        \<and> prominence d (canonical_id x) \<le> 50 \<and> touches (canonical_id x) r)
                \<longrightarrow> r \<in> set (relationships (noise_phase clock d False))
                    \<and> (\<forall>s \<in> set (relationship_sources d).
                          rs_relationship_id s = relationship_id r
                          \<longrightarrow> s \<in> set (relationship_sources (noise_phase clock d False)))))"
proof -
  define dels where "dels = filter (to_delete d) (canonical_entities d)"
  define flags where "flags = filter (to_flag d) (canonical_entities d)"
  define D where "D = canonical_id ` set dels"
  define d1 where "d1 = delete_all clock False 0 d (map noise_item dels)"
  define d2 where "d2 = noise_phase clock d False"
  have d2: "d2 = flag_all clock False (length dels) d1 (map noise_item flags)"
    by (simp add: d2_def noise_phase_split dels_def flags_def d1_def)
  note del = delete_all_tables [of clock 0 d "map noise_item dels", folded d1_def,
                                unfolded fst_noise_items, folded D_def]
  note flg = flag_all_tables [of clock "length dels" d1 "map noise_item flags", folded d2]
  have rels: "relationships d2 = filter (\<lambda>r. relationship_id r \<notin> edge_ids_of d D) (relationships d)"
    using del flg by simp
  have srcs: "relationship_sources d2
              = filter (\<lambda>s. rs_relationship_id s \<notin> edge_ids_of d D) (relationship_sources d)"
    using del flg by simp
  have logs: "entity_resolution_log d2
              = filter (\<lambda>l. rl_canonical_id l \<notin> D) (entity_resolution_log d)"
    using del flg by simp
  have ids: "map canonical_id (canonical_entities d2)
             = filter (\<lambda>c. c \<notin> D) (map canonical_id (canonical_entities d))"
    using del flg by (simp add: filter_map o_def)
  have D_iff: "c \<in> D \<longleftrightarrow> (\<exists>x \<in> set (canonical_entities d).
                   is_expanded_noise (canonical_name x) \<and> \<not> already_flagged x
                   \<and> prominence d (canonical_id x) \<le> 50 \<and> canonical_id x = c)" for c
    by (auto simp: D_def dels_def to_delete_def)
  have low: ?thesis if low: "prominence d (canonical_id e) \<le> 50"
  proof -
    have inD: "canonical_id e \<in> D" using e noise unflagged low by (auto simp: D_iff)
    have 1: "canonical_id e \<notin> canonical_id ` set (canonical_entities d2)"
    proof -
      have "canonical_id e \<notin> set (map canonical_id (canonical_entities d2))"
        unfolding ids using inD by simp
      then show ?thesis by simp
    qed
    have gone: "relationship_id r \<in> edge_ids_of d D"
      if "r \<in> set (relationships d)" "touches (canonical_id e) r" for r
      using that inD by (auto simp: edge_ids_of_def)
    have 2: "\<forall>r \<in> set (relationships d2). \<not> touches (canonical_id e) r"
      unfolding rels using gone by auto
    have 3: "\<forall>r \<in> set (relationships d). touches (canonical_id e) r \<longrightarrow>
                (\<forall>s \<in> set (relationship_sources d2). rs_relationship_id s \<noteq> relationship_id r)"
      unfolding srcs using gone by auto
    have 4: "\<forall>l \<in> set (entity_resolution_log d2). rl_canonical_id l \<noteq> canonical_id e"
      unfolding logs using inD by auto
    from 1 2 3 4 low show ?thesis unfolding d2_def by simp
  qed
  have high: ?thesis if high: "prominence d (canonical_id e) > 50"
  proof -
    have notD: "canonical_id e \<notin> D" using high by (auto simp: D_iff)
    have "canonical_id e \<in> set (map canonical_id (canonical_entities d2))"
      unfolding ids using e notD by simp
    then obtain e' where e': "e' \<in> set (canonical_entities d2)" "canonical_id e' = canonical_id e"
      by auto
    have item: "(canonical_id e, canonical_name e, classify_noise (canonical_name e))
                \<in> set (map noise_item flags)"
      using e noise unflagged high by (auto simp: flags_def to_flag_def noise_item_def image_iff)
    have "distinct (map canonical_id flags)"
      unfolding flags_def using pk by (rule distinct_map_filter)
    then have dist: "distinct (map fst (map noise_item flags))"
      by (simp add: o_def noise_item_def)
    have meta: "map_of (metadata e') ''exclude_from_analysis'' = Some (JBool True)
       \<and> map_of (metadata e') ''exclude_reason'' = Some (JStr (classify_noise (canonical_name e)))"
      using item dist e'(1) [unfolded d2] e'(2) by (rule flag_all_target)
    have kept: "relationship_id r \<notin> edge_ids_of d D"
      if r: "r \<in> set (relationships d)"
        and nodel: "\<not> (\<exists>x \<in> set (canonical_entities d).
                        is_expanded_noise (canonical_name x) \<and> \<not> already_flagged x
                        \<and> prominence d (canonical_id x) \<le> 50 \<and> touches (canonical_id x) r)" for r
    proof
      assume "relationship_id r \<in> edge_ids_of d D"
      then obtain r' c where r': "r' \<in> set (relationships d)" "relationship_id r' = relationship_id r"
        "c \<in> D" "touches c r'"
        by (auto simp: edge_ids_of_def)
      from rk r r'(1,2) have "r' = r" by (auto simp: distinct_map inj_on_def)
      with r'(3,4) nodel show False by (auto simp: D_iff)
    qed
    have 5: "\<exists>e' \<in> set (canonical_entities d2). canonical_id e' = canonical_id e
                \<and> map_of (metadata e') ''exclude_from_analysis'' = Some (JBool True)
                \<and> map_of (metadata e') ''exclude_reason''
                    = Some (JStr (classify_noise (canonical_name e)))"
      using e' meta by blast
    have 6: "\<forall>r \<in> set (relationships d).
                touches (canonical_id e) r
                \<and> \<not> (\<exists>x \<in> set (canonical_entities d).
                        is_expanded_noise (canonical_name x) \<and> \<not> already_flagged x
                        \<and> prominence d (canonical_id x) \<le> 50 \<and> touches (canonical_id x) r)
                \<longrightarrow> r \<in> set (relationships d2)
                    \<and> (\<forall>s \<in> set (relationship_sources d).
                          rs_relationship_id s = relationship_id r
                          \<longrightarrow> s \<in> set (relationship_sources d2))"
      unfolding rels srcs using kept by auto
    from 5 6 high show ?thesis unfolding d2_def by simp
  qed
  show ?thesis
  proof (cases "prominence d (canonical_id e) \<le> 50")
    case True
    then show ?thesis by (rule low)
  next
    case False
    then have "prominence d (canonical_id e) > 50" by simp
    then show ?thesis by (rule high)
  qed
qed

text \<open>
  The amended statement in \<open>noise_db\<close>: "Roger ?" is deleted, "Unknown Person" is
  flagged with the reason \<open>base_noise_filter\<close>.
\<close>

theorem noise_phase_disposition_witness:
  "prominence noise_db ''PER-00002'' \<le> 50
   \<and> ''PER-00002'' \<notin> canonical_id ` set (canonical_entities (noise_phase noise_clock noise_db False))
   \<and> 50 < prominence noise_db ''PER-00001''
   \<and> (\<exists>e' \<in> set (canonical_entities (noise_phase noise_clock noise_db False)).
          canonical_id e' = ''PER-00001''
          \<and> map_of (metadata e') ''exclude_from_analysis'' = Some (JBool True)
          \<and> map_of (metadata e') ''exclude_reason'' = Some (JStr ''base_noise_filter''))"
proof -
  let ?roger = "entity_row ''PER-00002'' ''person'' ''Roger ?''"
  let ?unknown = "entity_row ''PER-00001'' ''person'' ''Unknown Person''"
  have pk: "distinct (map canonical_id (canonical_entities noise_db))" by code_simp
  have rk: "distinct (map relationship_id (relationships noise_db))" by code_simp
  have e1: "?roger \<in> set (canonical_entities noise_db)" by code_simp
  have n1: "is_expanded_noise (canonical_name ?roger)" by code_simp
  have u1: "\<not> already_flagged ?roger" by code_simp
  have p1: "prominence noise_db (canonical_id ?roger) \<le> 50" by code_simp
  have e2: "?unknown \<in> set (canonical_entities noise_db)" by code_simp
  have n2: "is_expanded_noise (canonical_name ?unknown)" by code_simp
  have u2: "\<not> already_flagged ?unknown" by code_simp
  have p2: "50 < prominence noise_db (canonical_id ?unknown)" by code_simp
  have c1: "canonical_id ?roger = ''PER-00002''" by (simp add: entity_row_def)
  have c2: "canonical_id ?unknown = ''PER-00001''" "canonical_name ?unknown = ''Unknown Person''"
    by (simp_all add: entity_row_def)
  have r2: "classify_noise ''Unknown Person'' = ''base_noise_filter''" by code_simp
  from noise_phase_disposition [OF pk rk e1 n1 u1, of noise_clock, THEN conjunct1, rule_format, OF p1]
  have a: "''PER-00002'' \<notin> canonical_id ` set (canonical_entities (noise_phase noise_clock noise_db False))"
    unfolding c1 by (rule conjunct1)
  from noise_phase_disposition [OF pk rk e2 n2 u2, of noise_clock, THEN conjunct2, rule_format, OF p2]
  have b: "\<exists>e' \<in> set (canonical_entities (noise_phase noise_clock noise_db False)).
          canonical_id e' = ''PER-00001''
          \<and> map_of (metadata e') ''exclude_from_analysis'' = Some (JBool True)
          \<and> map_of (metadata e') ''exclude_reason'' = Some (JStr ''base_noise_filter'')"
    unfolding c2 r2 by (rule conjunct1)
  from p1 p2 a b show ?thesis unfolding c1 c2 by (intro conjI)
qed

end
